theory Spec2Isabelle
  imports Main "HOL-Library.Word"
begin

unbundle bit_operations_syntax

section \<open>The program\<close>

text \<open>
  The theory embeds the search engine of \<^verbatim>\<open>view_find.cpp\<close>: the pattern parsers, the five
  search routines, the task body of \<^verbatim>\<open>runSearch\<close> and the parts of \<^verbatim>\<open>drawContent\<close> that
  decide whether a search starts and how the filter is applied. The first section holds
  the program, function by function in the order of the source; the second and third
  hold the terms in which its properties are stated and the concrete inputs; the last
  holds the proofs.

  Addresses, sizes and counters are natural numbers. The source computes them in
  64-bit unsigned arithmetic; every subtraction of the routines modelled here is
  applied to an address that is at least as large as the amount subtracted, and the
  additions stay below the end address of the range, so no wrap-around is reached for a
  range that lies inside the 64-bit address space. Bytes are 8-bit words.
\<close>

subsection \<open>Data model\<close>

type_synonym u8 = "8 word"

datatype Region = Region nat nat

fun getStartAddress :: "Region \<Rightarrow> nat" where
  "getStartAddress (Region a s) = a"

fun getSize :: "Region \<Rightarrow> nat" where
  "getSize (Region a s) = s"

datatype DecodeType =
  DecodeBinary | DecodeASCII | DecodeUTF16 | DecodeUnsigned | DecodeSigned | DecodeFloat | DecodeDouble

datatype endian = Little | Big

text \<open>\<^verbatim>\<open>std::endian::native\<close>: the host is taken to be little-endian.\<close>

definition native :: endian where
  "native = Little"

record Occurrence =
  region :: Region
  decodeType :: DecodeType
  endian :: endian

subsection \<open>The task handle\<close>

text \<open>
  Modelled from the spec: the class \<^verbatim>\<open>Task\<close> of the task scheduler, which is not
  among the sources. The spec gives the contract: \<^verbatim>\<open>update(progress | none)\<close> is the
  cooperative cancellation poll, \<^verbatim>\<open>interrupt()\<close> requests the cancellation, and a task
  either completes with a result list or is interrupted. The search routines never test
  a flag themselves and never return early, so an interruption can only leave them out
  of a call of \<^verbatim>\<open>update\<close>: the poll that observes the request abandons the task body at
  that call. The request comes from another thread; it is modelled by the number of
  polls after which it is visible (\<open>interruptAt\<close>, \<open>None\<close> for a task that is never
  interrupted). \<open>calls\<close> counts the polls that returned normally. The progress value
  itself is not read by any routine and is left out.
\<close>

record Task =
  calls :: nat
  interruptAt :: "nat option"

datatype fault = TaskInterruptor | OutOfBounds | RegexError

type_synonym 'a outcome = "(fault + 'a) \<times> Task"

definition shouldInterrupt :: "Task \<Rightarrow> bool" where
  "shouldInterrupt t = (case interruptAt t of None \<Rightarrow> False | Some n \<Rightarrow> n \<le> calls t)"

definition task_update :: "Task \<Rightarrow> Task option" where
  "task_update t = (if shouldInterrupt t then None else Some (t\<lparr>calls := Suc (calls t)\<rparr>))"

definition newTask :: Task where
  "newTask = \<lparr>calls = 0, interruptAt = None\<rparr>"

subsection \<open>The provider reader\<close>

text \<open>
  Modelled from the spec: \<^verbatim>\<open>prv::ProviderReader\<close> (the buffered reader is not among the
  sources). After \<^verbatim>\<open>seek(region.getStartAddress())\<close> and
  \<^verbatim>\<open>setEndAddress(region.getEndAddress())\<close> the reader iterates forward over the bytes of
  the region, each byte at its address; \<^verbatim>\<open>reader.end()\<close> is the position past the last
  byte of the region. A search routine therefore receives the bytes \<open>H\<close> of its range and
  the address \<open>start\<close> of the first of them. An iterator is an address; the bytes between
  an iterator and \<^verbatim>\<open>reader.end()\<close> are \<open>readerFrom H start it\<close>, and an iterator equals
  \<^verbatim>\<open>reader.end()\<close> exactly when no byte is left.
\<close>

definition readerFrom :: "u8 list \<Rightarrow> nat \<Rightarrow> nat \<Rightarrow> u8 list" where
  "readerFrom H start it = drop (it - start) H"

definition readerEnd :: "u8 list \<Rightarrow> nat \<Rightarrow> nat" where
  "readerEnd H start = start + length H"

subsection \<open>Character classes\<close>

text \<open>
  The character classes of \<^verbatim>\<open><cctype>\<close> in the C locale. The functions take the
  character as a number (the \<^verbatim>\<open>int\<close> argument of the C functions): \<open>of_char c\<close> for a
  character of a string and \<open>unat b\<close> for a byte.
\<close>

definition islower :: "nat \<Rightarrow> bool" where
  "islower c = (0x61 \<le> c \<and> c \<le> 0x7A)"

definition isupper :: "nat \<Rightarrow> bool" where
  "isupper c = (0x41 \<le> c \<and> c \<le> 0x5A)"

definition isdigit :: "nat \<Rightarrow> bool" where
  "isdigit c = (0x30 \<le> c \<and> c \<le> 0x39)"

definition isxdigit :: "nat \<Rightarrow> bool" where
  "isxdigit c = (isdigit c \<or> (0x41 \<le> c \<and> c \<le> 0x46) \<or> (0x61 \<le> c \<and> c \<le> 0x66))"

definition isspace :: "nat \<Rightarrow> bool" where
  "isspace c = (c = 0x20 \<or> (0x09 \<le> c \<and> c \<le> 0x0D))"

definition ispunct :: "nat \<Rightarrow> bool" where
  "ispunct c = ((0x21 \<le> c \<and> c \<le> 0x2F) \<or> (0x3A \<le> c \<and> c \<le> 0x40)
     \<or> (0x5B \<le> c \<and> c \<le> 0x60) \<or> (0x7B \<le> c \<and> c \<le> 0x7E))"

subsection \<open>parseBinaryPatternString\<close>

text \<open>
  One entry of a binary pattern, \<^verbatim>\<open>struct BinaryPattern { u8 mask, value; }\<close>: a byte
  \<open>b\<close> matches the entry when \<open>b AND mask = value\<close>.
\<close>

record BinaryPattern =
  mask_p :: u8
  value_p :: u8

text \<open>
  Modelled from the spec: \<^verbatim>\<open>hex::hexCharToValue\<close> (the helper is not among the sources),
  the value of a hexadecimal digit ("value = that nibble"), and nothing for any other
  character.
\<close>

definition hexCharToValue :: "char \<Rightarrow> u8 option" where
  "hexCharToValue c =
     (let n = of_char c :: nat
      in if isdigit n then Some (of_nat (n - 0x30))
         else if 0x61 \<le> n \<and> n \<le> 0x66 then Some (of_nat (n - 0x61 + 10))
         else if 0x41 \<le> n \<and> n \<le> 0x46 then Some (of_nat (n - 0x41 + 10))
         else None)"

text \<open>
  The loop \<^verbatim>\<open>for (const auto &c : hex)\<close> over the two characters of a token; \<open>None\<close> is
  the \<^verbatim>\<open>return { }\<close> that leaves the whole parser with the empty result.
\<close>

fun parseNibbles :: "string \<Rightarrow> BinaryPattern \<Rightarrow> BinaryPattern option" where
  "parseNibbles [] pattern = Some pattern"
| "parseNibbles (c # cs) pattern =
     (let shifted = pattern\<lparr>mask_p := push_bit 4 (mask_p pattern), value_p := push_bit 4 (value_p pattern)\<rparr>
      in if isxdigit (of_char c) then
           (case hexCharToValue c of
              Some hexValue \<Rightarrow>
                parseNibbles cs (shifted\<lparr>mask_p := mask_p shifted OR 0x0F, value_p := value_p shifted OR hexValue\<rparr>)
            | None \<Rightarrow> None)
         else if c \<noteq> CHR ''?'' then None
         else parseNibbles cs shifted)"

text \<open>
  The \<^verbatim>\<open>while (string.length() > 0)\<close> loop of \<^verbatim>\<open>parseBinaryPatternString\<close>, with the
  branches in the order of the source. \<open>CHR 0x22\<close> is the double quote.
\<close>

function parsePattern_loop :: "string \<Rightarrow> bool \<Rightarrow> BinaryPattern list \<Rightarrow> BinaryPattern list" where
  "parsePattern_loop string inString result =
     (if string = [] then (if inString then [] else result)
      else if hd string = CHR 0x22 then parsePattern_loop (drop 1 string) (\<not> inString) result
      else if inString then
        parsePattern_loop (drop 1 string) inString
          (result @ [\<lparr>mask_p = 0xFF, value_p = of_char (hd string)\<rparr>])
      else if take 2 string = ''??'' then
        parsePattern_loop (drop 2 string) inString (result @ [\<lparr>mask_p = 0x00, value_p = 0x00\<rparr>])
      else if (isxdigit (of_char (hd string)) \<or> hd string = CHR ''?'') \<and> 2 \<le> length string then
        (case parseNibbles (take 2 string) \<lparr>mask_p = 0, value_p = 0\<rparr> of
           None \<Rightarrow> []
         | Some pattern \<Rightarrow> parsePattern_loop (drop 2 string) inString (result @ [pattern]))
      else if isspace (of_char (hd string)) then parsePattern_loop (drop 1 string) inString result
      else [])"
  by pat_completeness auto
termination
  by (relation "measure (\<lambda>(string, inString, result). length string)") auto

declare parsePattern_loop.simps [simp del]

definition parseBinaryPatternString :: "string \<Rightarrow> BinaryPattern list" where
  "parseBinaryPatternString string =
     (if length string < 2 then [] else parsePattern_loop string False [])"

subsection \<open>parseNumericValue and parseNumericValueInput\<close>

datatype ValueType = U8 | U16 | U32 | U64 | I8 | I16 | I32 | I64 | F32 | F64

text \<open>
  \<^verbatim>\<open>std::variant<u64, i64, float, double>\<close>. Floating-point values are not interpreted:
  they are the values of a type parameter, and the operations on them are taken as
  parameters (\<open>FloatLib\<close>).
\<close>

datatype 'f Numeric = UVal nat | IVal int | FVal 'f | DVal 'f

text \<open>
  \<open>stod\<close> is \<^verbatim>\<open>std::stod\<close> with the number of characters it processed, \<open>None\<close> when it
  throws; \<open>to_float\<close> is the conversion of the \<^verbatim>\<open>double\<close> to \<^verbatim>\<open>float\<close>;
  \<open>float_out_of_range\<close> and \<open>double_out_of_range\<close> are the test
  \<^verbatim>\<open>value < lowest() || value > max()\<close>; \<open>float_of_bits\<close> and \<open>double_of_bits\<close> read a
  bit pattern as a value (\<^verbatim>\<open>memcpy\<close>); \<open>fp_le\<close> is the comparison \<^verbatim>\<open><=\<close>.
\<close>

record 'f FloatLib =
  stod :: "string \<Rightarrow> ('f \<times> nat) option"
  to_float :: "'f \<Rightarrow> 'f"
  float_out_of_range :: "'f \<Rightarrow> bool"
  double_out_of_range :: "'f \<Rightarrow> bool"
  float_of_bits :: "nat \<Rightarrow> 'f"
  double_of_bits :: "nat \<Rightarrow> 'f"
  fp_le :: "'f \<Rightarrow> 'f \<Rightarrow> bool"

text \<open>
  \<^verbatim>\<open>std::stoull\<close> and \<^verbatim>\<open>std::stoll\<close> with base 0, as the C standard defines
  \<^verbatim>\<open>strtoull\<close> and \<^verbatim>\<open>strtoll\<close>: leading white space, an optional sign, the prefix
  \<^verbatim>\<open>0x\<close> before a hexadecimal digit for base 16 or a leading \<^verbatim>\<open>0\<close> for base 8, and then
  the longest run of digits of the base. \<open>digitValue\<close> is the value of a digit or letter.
\<close>

definition digitValue :: "nat \<Rightarrow> nat option" where
  "digitValue c =
     (if isdigit c then Some (c - 0x30)
      else if islower c then Some (c - 0x61 + 10)
      else if isupper c then Some (c - 0x41 + 10)
      else None)"

text \<open>The digits of the base at the head of a text: their value and their number.\<close>

fun readDigits :: "nat \<Rightarrow> string \<Rightarrow> nat \<Rightarrow> nat \<Rightarrow> nat \<times> nat" where
  "readDigits base [] acc n = (acc, n)"
| "readDigits base (c # cs) acc n =
     (case digitValue (of_char c) of
        None \<Rightarrow> (acc, n)
      | Some d \<Rightarrow> if d < base then readDigits base cs (acc * base + d) (Suc n) else (acc, n))"

text \<open>The base of a text after the sign, the text at its first digit, and the length of the prefix.\<close>

fun detectBase :: "string \<Rightarrow> nat \<times> string \<times> nat" where
  "detectBase (c # x # d # r) =
     (if c = CHR ''0'' \<and> (x = CHR ''x'' \<or> x = CHR ''X'') \<and> isxdigit (of_char d) then (16, d # r, 2)
      else if c = CHR ''0'' then (8, c # x # d # r, 0)
      else (10, c # x # d # r, 0))"
| "detectBase s = (if take 1 s = ''0'' then (8, s, 0) else (10, s, 0))"

text \<open>
  The conversion common to both functions: whether the sign is negative, the magnitude,
  and the number of characters processed; \<open>None\<close> when there is no digit (no conversion).
\<close>

definition strto :: "string \<Rightarrow> (bool \<times> nat \<times> nat) option" where
  "strto s =
     (let ws = takeWhile (\<lambda>c. isspace (of_char c)) s;
          s1 = dropWhile (\<lambda>c. isspace (of_char c)) s;
          (neg, s2, k2) =
            (if take 1 s1 = ''-'' then (True, drop 1 s1, 1)
             else if take 1 s1 = ''+'' then (False, drop 1 s1, 1)
             else (False, s1, 0 :: nat));
          (base, s3, k3) = detectBase s2;
          (v, n) = readDigits base s3 0 0
      in if n = 0 then None else Some (neg, v, length ws + k2 + k3 + n))"

text \<open>
  \<^verbatim>\<open>std::stoull\<close>: \<open>None\<close> is an exception (\<^verbatim>\<open>invalid_argument\<close> without a conversion,
  \<^verbatim>\<open>out_of_range\<close> on overflow); a negative sign negates in 64 unsigned bits.
\<close>

definition stoull :: "string \<Rightarrow> (nat \<times> nat) option" where
  "stoull s =
     (case strto s of
        None \<Rightarrow> None
      | Some (neg, v, processed) \<Rightarrow>
          if 2 ^ 64 \<le> v then None
          else Some ((if neg then (2 ^ 64 - v) mod 2 ^ 64 else v), processed))"

definition stoll :: "string \<Rightarrow> (int \<times> nat) option" where
  "stoll s =
     (case strto s of
        None \<Rightarrow> None
      | Some (neg, v, processed) \<Rightarrow>
          if neg then (if 2 ^ 63 < v then None else Some (- int v, processed))
          else (if 2 ^ 63 \<le> v then None else Some (int v, processed)))"

text \<open>
  The template \<^verbatim>\<open>parseNumericValue<Type, StorageType>\<close>, once for each storage type;
  \<open>w\<close> is \<^verbatim>\<open>sizeof(Type)\<close>. The failure value \<^verbatim>\<open>{ false, { }, 0 }\<close> holds the default
  variant, an unsigned zero.
\<close>

definition parseUnsigned :: "nat \<Rightarrow> string \<Rightarrow> bool \<times> 'f Numeric \<times> nat" where
  "parseUnsigned w string =
     (case stoull string of
        None \<Rightarrow> (False, UVal 0, 0)
      | Some (v, processed) \<Rightarrow>
          if processed \<noteq> length string then (False, UVal 0, 0)
          else if 2 ^ (8 * w) - 1 < v then (False, UVal 0, 0)
          else (True, UVal v, w))"

definition parseSigned :: "nat \<Rightarrow> string \<Rightarrow> bool \<times> 'f Numeric \<times> nat" where
  "parseSigned w string =
     (case stoll string of
        None \<Rightarrow> (False, UVal 0, 0)
      | Some (v, processed) \<Rightarrow>
          if processed \<noteq> length string then (False, UVal 0, 0)
          else if v < - (2 ^ (8 * w - 1)) \<or> 2 ^ (8 * w - 1) - 1 < v then (False, UVal 0, 0)
          else (True, IVal v, w))"

definition parseFloat :: "'f FloatLib \<Rightarrow> string \<Rightarrow> bool \<times> 'f Numeric \<times> nat" where
  "parseFloat fl string =
     (case stod fl string of
        None \<Rightarrow> (False, UVal 0, 0)
      | Some (d, processed) \<Rightarrow>
          (let v = to_float fl d
           in if processed \<noteq> length string then (False, UVal 0, 0)
              else if float_out_of_range fl v then (False, UVal 0, 0)
              else (True, FVal v, 4)))"

definition parseDouble :: "'f FloatLib \<Rightarrow> string \<Rightarrow> bool \<times> 'f Numeric \<times> nat" where
  "parseDouble fl string =
     (case stod fl string of
        None \<Rightarrow> (False, UVal 0, 0)
      | Some (v, processed) \<Rightarrow>
          if processed \<noteq> length string then (False, UVal 0, 0)
          else if double_out_of_range fl v then (False, UVal 0, 0)
          else (True, DVal v, 8))"

fun parseNumericValueInput :: "'f FloatLib \<Rightarrow> string \<Rightarrow> ValueType \<Rightarrow> bool \<times> 'f Numeric \<times> nat" where
  "parseNumericValueInput fl input U8 = parseUnsigned 1 input"
| "parseNumericValueInput fl input U16 = parseUnsigned 2 input"
| "parseNumericValueInput fl input U32 = parseUnsigned 4 input"
| "parseNumericValueInput fl input U64 = parseUnsigned 8 input"
| "parseNumericValueInput fl input I8 = parseSigned 1 input"
| "parseNumericValueInput fl input I16 = parseSigned 2 input"
| "parseNumericValueInput fl input I32 = parseSigned 4 input"
| "parseNumericValueInput fl input I64 = parseSigned 8 input"
| "parseNumericValueInput fl input F32 = parseFloat fl input"
| "parseNumericValueInput fl input F64 = parseDouble fl input"

subsection \<open>searchStrings\<close>

datatype StringType = ASCII | UTF16LE | UTF16BE | ASCII_UTF16LE | ASCII_UTF16BE

text \<open>\<^verbatim>\<open>SearchSettings::Strings\<close>; \<open>minLength\<close> is a C \<^verbatim>\<open>int\<close>.\<close>

record Strings =
  minLength :: int
  nullTermination :: bool
  type :: StringType
  lowerCaseLetters :: bool
  upperCaseLetters :: bool
  numbers :: bool
  underscores :: bool
  symbols :: bool
  spaces :: bool
  lineFeeds :: bool

text \<open>The conversion \<^verbatim>\<open>size_t(settings.minLength)\<close> of a 32-bit integer to 64 unsigned bits.\<close>

definition size_t :: "int \<Rightarrow> nat" where
  "size_t i = nat (i mod 2 ^ 64)"

text \<open>The character-class test of a byte against the enabled classes.\<close>

definition classValid :: "Strings \<Rightarrow> u8 \<Rightarrow> bool" where
  "classValid settings byte =
     ((lowerCaseLetters settings \<and> islower (unat byte))
      \<or> (upperCaseLetters settings \<and> isupper (unat byte))
      \<or> (numbers settings \<and> isdigit (unat byte))
      \<or> (spaces settings \<and> isspace (unat byte) \<and> byte \<noteq> 0x0D \<and> byte \<noteq> 0x0A)
      \<or> (underscores settings \<and> byte = 0x5F)
      \<or> (symbols settings \<and> ispunct (unat byte) \<and> \<not> isspace (unat byte))
      \<or> (lineFeeds settings \<and> (byte = 0x0D \<or> byte = 0x0A)))"

text \<open>
  \<open>validChar\<close> after the UTF-16 adjustment: in a UTF-16 mode the byte at every second
  position of the run counted so far has to be zero instead.
\<close>

definition validChar :: "Strings \<Rightarrow> nat \<Rightarrow> u8 \<Rightarrow> bool" where
  "validChar settings countedCharacters byte =
     (if type settings = UTF16LE then
        (if countedCharacters mod 2 = 1 then byte = 0x00 else classValid settings byte)
      else if type settings = UTF16BE then
        (if countedCharacters mod 2 = 0 then byte = 0x00 else classValid settings byte)
      else classValid settings byte)"

text \<open>
  The loop \<^verbatim>\<open>for (u8 byte : reader)\<close> of \<^verbatim>\<open>searchStrings\<close> over the bytes that are left,
  with the state \<open>countedCharacters\<close>, \<open>startAddress\<close> and \<open>results\<close>.
\<close>

fun searchStrings_loop ::
  "Task \<Rightarrow> Strings \<Rightarrow> DecodeType \<Rightarrow> endian \<Rightarrow> nat \<Rightarrow> u8 list \<Rightarrow> nat \<Rightarrow> nat \<Rightarrow> Occurrence list
     \<Rightarrow> Occurrence list outcome" where
  "searchStrings_loop t settings dt en endAddress [] countedCharacters startAddress results =
     (Inr results, t)"
| "searchStrings_loop t settings dt en endAddress (byte # bytes) countedCharacters startAddress results =
     (let valid = validChar settings countedCharacters byte
      in case task_update t of
           None \<Rightarrow> (Inl TaskInterruptor, t)
         | Some t' \<Rightarrow>
             (let counted = (if valid then countedCharacters + 1 else countedCharacters)
              in if \<not> valid \<or> startAddress + counted = endAddress then
                   searchStrings_loop t' settings dt en endAddress bytes 0 (startAddress + counted + 1)
                     (if size_t (minLength settings) \<le> counted
                         \<and> \<not> (nullTermination settings \<and> byte \<noteq> 0x00)
                      then results @ [\<lparr>region = Region startAddress counted, decodeType = dt, endian = en\<rparr>]
                      else results)
                 else searchStrings_loop t' settings dt en endAddress bytes counted startAddress results))"

text \<open>The scan of one encoding: the part of \<^verbatim>\<open>searchStrings\<close> after the combined modes.\<close>

definition searchStrings_single :: "Task \<Rightarrow> u8 list \<Rightarrow> nat \<Rightarrow> Strings \<Rightarrow> Occurrence list outcome" where
  "searchStrings_single t H start settings =
     (let (dt, en) =
        (if type settings = ASCII then (DecodeASCII, native)
         else if type settings = UTF16BE then (DecodeUTF16, Big)
         else if type settings = UTF16LE then (DecodeUTF16, Little)
         else (DecodeBinary, native))
      in searchStrings_loop t settings dt en (readerEnd H start) H 0 start [])"

text \<open>
  \<^verbatim>\<open>searchStrings\<close>: a combined mode runs the ASCII scan and then the UTF-16 scan (the
  recursive calls of the source, which take the single-encoding path) and concatenates
  the results.
\<close>

definition searchStrings :: "Task \<Rightarrow> u8 list \<Rightarrow> nat \<Rightarrow> Strings \<Rightarrow> Occurrence list outcome" where
  "searchStrings t H start settings =
     (if type settings = ASCII_UTF16BE \<or> type settings = ASCII_UTF16LE then
        (case searchStrings_single t H start (settings\<lparr>type := ASCII\<rparr>) of
           (Inl f, t1) \<Rightarrow> (Inl f, t1)
         | (Inr asciiResults, t1) \<Rightarrow>
             (case searchStrings_single t1 H start
                     (settings\<lparr>type := (if type settings = ASCII_UTF16BE then UTF16BE else UTF16LE)\<rparr>) of
                (Inl f, t2) \<Rightarrow> (Inl f, t2)
              | (Inr utf16Results, t2) \<Rightarrow> (Inr (asciiResults @ utf16Results), t2)))
      else searchStrings_single t H start settings)"

subsection \<open>searchSequence\<close>

text \<open>
  \<^verbatim>\<open>std::search\<close> with a Boyer-Moore-Horspool searcher returns the iterator of the first
  occurrence of the needle in the range, or the end iterator when there is none (the
  searcher is only a faster way to the same position). As an index into the remaining
  bytes: the first index at which the needle is a prefix of the rest, or the length of
  the haystack.
\<close>

fun std_search :: "u8 list \<Rightarrow> u8 list \<Rightarrow> nat" where
  "std_search [] needle = 0"
| "std_search (h # hs) needle =
     (if take (length needle) (h # hs) = needle then 0 else Suc (std_search hs needle))"

text \<open>
  The \<^verbatim>\<open>while (true)\<close> loop of \<^verbatim>\<open>searchSequence\<close>. \<open>first\<close> is the position of
  \<^verbatim>\<open>reader.begin()\<close>, moved by \<^verbatim>\<open>reader.seek(address + 1)\<close> after each match.
\<close>

function searchSequence_loop ::
  "Task \<Rightarrow> u8 list \<Rightarrow> nat \<Rightarrow> u8 list \<Rightarrow> nat \<Rightarrow> Occurrence list \<Rightarrow> Occurrence list outcome" where
  "searchSequence_loop t H start bytes first results =
     (case task_update t of
        None \<Rightarrow> (Inl TaskInterruptor, t)
      | Some t' \<Rightarrow>
          (let rest = readerFrom H start first;
               k = std_search rest bytes
           in if k = length rest then (Inr results, t')
              else (let address = first + k
                    in searchSequence_loop t' H start bytes (address + 1)
                         (results @ [\<lparr>region = Region address (length bytes), decodeType = DecodeBinary, endian = native\<rparr>]))))"
  by pat_completeness auto
termination
proof (relation "measure (\<lambda>(t, H, start, bytes, first, results). start + length H - first)",
    goal_cases)
  case 1
  show ?case by simp
next
  case (2 t H start bytes first results t' rest k address)
  have "std_search hs needle \<le> length hs" for hs needle
    by (induction hs) auto
  then have "k < length rest"
    using 2 le_neq_implies_less by blast
  then have "first + k < start + length H"
    using 2 by (simp add: readerFrom_def)
  then show ?case
    using 2 by simp
qed

declare searchSequence_loop.simps [simp del]

text \<open>
  \<^verbatim>\<open>searchSequence\<close>; \<open>bytes\<close> is the decoded sequence
  \<^verbatim>\<open>hex::decodeByteString(settings.sequence)\<close>.
\<close>

definition searchSequence :: "Task \<Rightarrow> u8 list \<Rightarrow> nat \<Rightarrow> u8 list \<Rightarrow> Occurrence list outcome" where
  "searchSequence t H start bytes =
     (if bytes = [] then (Inr [], t) else searchSequence_loop t H start bytes start [])"

subsection \<open>searchRegex\<close>

text \<open>
  \<^verbatim>\<open>std::regex\<close> is taken as a parameter: \<open>regex_compile\<close> is the constructor, \<open>None\<close> when
  it throws \<^verbatim>\<open>std::regex_error\<close>; \<open>regex_match\<close> and \<open>regex_search\<close> are the two tests.
\<close>

record 'r RegexLib =
  regex_compile :: "string \<Rightarrow> 'r option"
  regex_match :: "string \<Rightarrow> 'r \<Rightarrow> bool"
  regex_search :: "string \<Rightarrow> 'r \<Rightarrow> bool"

text \<open>\<^verbatim>\<open>SearchSettings::Regex\<close>.\<close>

record Regex =
  minLength_rx :: int
  nullTermination_rx :: bool
  type_rx :: StringType
  pattern_rx :: string
  fullMatch :: bool

text \<open>
  \<^verbatim>\<open>provider->read(address, string.data(), size)\<close> for an occurrence of the searched
  range: the bytes of the occurrence as characters.
\<close>

definition readString :: "u8 list \<Rightarrow> nat \<Rightarrow> Region \<Rightarrow> string" where
  "readString H start r =
     map (\<lambda>b. char_of (unat b)) (take (getSize r) (drop (getStartAddress r - start) H))"

fun searchRegex_loop ::
  "'r RegexLib \<Rightarrow> 'r \<Rightarrow> bool \<Rightarrow> Task \<Rightarrow> u8 list \<Rightarrow> nat \<Rightarrow> Occurrence list \<Rightarrow> Occurrence list
     \<Rightarrow> Occurrence list outcome" where
  "searchRegex_loop lib regex full t H start [] result = (Inr result, t)"
| "searchRegex_loop lib regex full t H start (occurrence # stringOccurrences) result =
     (let string = readString H start (region occurrence)
      in case task_update t of
           None \<Rightarrow> (Inl TaskInterruptor, t)
         | Some t' \<Rightarrow>
             searchRegex_loop lib regex full t' H start stringOccurrences
               (if full then (if regex_match lib string regex then result @ [occurrence] else result)
                else (if regex_search lib string regex then result @ [occurrence] else result)))"

text \<open>
  \<^verbatim>\<open>searchRegex\<close>: the string scan first, then the construction of the \<^verbatim>\<open>std::regex\<close>,
  whose exception is not caught in the function, then the test of every string.
\<close>

definition searchRegex ::
  "'r RegexLib \<Rightarrow> Task \<Rightarrow> u8 list \<Rightarrow> nat \<Rightarrow> Regex \<Rightarrow> Occurrence list outcome" where
  "searchRegex lib t H start settings =
     (case searchStrings t H start
             \<lparr>minLength = minLength_rx settings, nullTermination = nullTermination_rx settings,
              type = type_rx settings, lowerCaseLetters = True, upperCaseLetters = True,
              numbers = True, underscores = True, symbols = True, spaces = True, lineFeeds = True\<rparr> of
        (Inl f, t1) \<Rightarrow> (Inl f, t1)
      | (Inr stringOccurrences, t1) \<Rightarrow>
          (case regex_compile lib (pattern_rx settings) of
             None \<Rightarrow> (Inl RegexError, t1)
           | Some regex \<Rightarrow>
               searchRegex_loop lib regex (fullMatch settings) t1 H start stringOccurrences []))"

subsection \<open>searchBinaryPattern\<close>

text \<open>
  The \<^verbatim>\<open>for (auto it = reader.begin(); it != reader.end(); ++it)\<close> loop of
  \<^verbatim>\<open>searchBinaryPattern\<close>. The loop body moves the iterator (\<^verbatim>\<open>it.setAddress\<close>,
  \<^verbatim>\<open>it -= matchedBytes\<close>) and the loop header then increments it. The read
  \<^verbatim>\<open>settings.pattern[matchedBytes]\<close> of a \<^verbatim>\<open>std::vector\<close> has no bounds check; a read
  past the end of the pattern is the fault \<open>OutOfBounds\<close>.
\<close>

function searchBinaryPattern_loop ::
  "Task \<Rightarrow> u8 list \<Rightarrow> nat \<Rightarrow> BinaryPattern list \<Rightarrow> nat \<Rightarrow> nat \<Rightarrow> Occurrence list
     \<Rightarrow> Occurrence list outcome" where
  "searchBinaryPattern_loop t H start pattern it matchedBytes results =
     (case readerFrom H start it of
        [] \<Rightarrow> (Inr results, t)
      | byte # _ \<Rightarrow>
          (case task_update t of
             None \<Rightarrow> (Inl TaskInterruptor, t)
           | Some t' \<Rightarrow>
               if length pattern \<le> matchedBytes then (Inl OutOfBounds, t')
               else if byte AND mask_p (pattern ! matchedBytes) = value_p (pattern ! matchedBytes) then
                 (if matchedBytes + 1 = length pattern then
                    (let occurrenceAddress = it - (length pattern - 1)
                     in searchBinaryPattern_loop t' H start pattern (occurrenceAddress + 1) 0
                          (results @ [\<lparr>region = Region occurrenceAddress (length pattern), decodeType = DecodeBinary, endian = native\<rparr>]))
                  else searchBinaryPattern_loop t' H start pattern (it + 1) (matchedBytes + 1) results)
               else
                 searchBinaryPattern_loop t' H start pattern
                   ((if 0 < matchedBytes then it - matchedBytes else it) + 1) 0 results))"
  by pat_completeness auto
termination
proof (relation "measures
    [\<lambda>(t, H, start, pattern, it, matchedBytes, results). start + length H - (it - matchedBytes),
     \<lambda>(t, H, start, pattern, it, matchedBytes, results). length pattern - matchedBytes]",
    goal_cases)
  case 1
  show ?case by simp
next
  case (2 t H start pattern it matchedBytes results byte rest t' occurrenceAddress)
  then have "it - start < length H"
    by (cases "it - start < length H") (simp_all add: readerFrom_def)
  then show ?case
    using 2 by auto
next
  case (3 t H start pattern it matchedBytes results byte rest t')
  then show ?case by auto
next
  case (4 t H start pattern it matchedBytes results byte rest t')
  then have "it - start < length H"
    by (cases "it - start < length H") (simp_all add: readerFrom_def)
  then show ?case
    using 4 by auto
qed

declare searchBinaryPattern_loop.simps [simp del]

definition searchBinaryPattern ::
  "Task \<Rightarrow> u8 list \<Rightarrow> nat \<Rightarrow> BinaryPattern list \<Rightarrow> Occurrence list outcome" where
  "searchBinaryPattern t H start pattern = searchBinaryPattern_loop t H start pattern start 0 []"

subsection \<open>searchValue\<close>

text \<open>\<^verbatim>\<open>SearchSettings::Value\<close>.\<close>

record Value =
  inputMin :: string
  inputMax :: string
  type_v :: ValueType
  endian_v :: endian

text \<open>
  Modelled from the spec: \<^verbatim>\<open>hex::bitmask\<close> and \<^verbatim>\<open>hex::changeEndianess\<close> (the helpers are
  not among the sources). \<open>bitmask bits\<close> has the low \<open>bits\<close> bits set. The spec reads
  each window "reinterpreted at the chosen endianness": \<open>changeEndianess\<close> leaves a value
  of the native byte order alone and reverses the low \<open>sizeBytes\<close> bytes otherwise. Values are
  bit patterns here, whatever their C type.
\<close>

definition bitmask :: "nat \<Rightarrow> nat" where
  "bitmask bits = 2 ^ bits - 1"

definition byteSwap :: "nat \<Rightarrow> nat \<Rightarrow> nat" where
  "byteSwap sizeBytes v = foldl (\<lambda>acc i. acc * 256 + (v div 256 ^ i) mod 256) 0 [0..<sizeBytes]"

definition changeEndianess :: "nat \<Rightarrow> nat \<Rightarrow> endian \<Rightarrow> nat" where
  "changeEndianess v sizeBytes en = (if en = native then v else byteSwap sizeBytes v)"

text \<open>
  The \<^verbatim>\<open>std::visit\<close> of \<^verbatim>\<open>searchValue\<close>: \<open>T\<close> is the alternative that \<open>min_v\<close> holds, the
  \<open>sizeBytes\<close> low bytes of \<open>bytes\<close> are copied into a zeroed \<open>T\<close>, the byte order is changed
  twice, and the value is compared with the bounds in the order of \<open>T\<close>. A signed \<open>T\<close> is
  the 64-bit \<^verbatim>\<open>i64\<close>: the copied bytes are not sign-extended. \<^verbatim>\<open>std::get<T>(max_v)\<close> of
  another alternative would throw; both bounds come from the same type, and the case
  is \<open>False\<close>.
\<close>

definition windowInRange ::
  "'f FloatLib \<Rightarrow> 'f Numeric \<Rightarrow> 'f Numeric \<Rightarrow> nat \<Rightarrow> endian \<Rightarrow> nat \<Rightarrow> bool" where
  "windowInRange fl min_v max_v sizeBytes en bytes =
     (let bits = changeEndianess (changeEndianess bytes sizeBytes Big) sizeBytes en
      in case (min_v, max_v) of
           (UVal minValue, UVal maxValue) \<Rightarrow> minValue \<le> bits \<and> bits \<le> maxValue
         | (IVal minValue, IVal maxValue) \<Rightarrow>
             (let v = (if 2 ^ 63 \<le> bits then int bits - 2 ^ 64 else int bits)
              in minValue \<le> v \<and> v \<le> maxValue)
         | (FVal minValue, FVal maxValue) \<Rightarrow>
             fp_le fl minValue (float_of_bits fl bits) \<and> fp_le fl (float_of_bits fl bits) maxValue
         | (DVal minValue, DVal maxValue) \<Rightarrow>
             fp_le fl minValue (double_of_bits fl bits) \<and> fp_le fl (double_of_bits fl bits) maxValue
         | _ \<Rightarrow> False)"

fun valueDecodeType :: "ValueType \<Rightarrow> DecodeType" where
  "valueDecodeType F32 = DecodeFloat"
| "valueDecodeType F64 = DecodeDouble"
| "valueDecodeType ty = (if ty \<in> {U8, U16, U32, U64} then DecodeUnsigned else DecodeSigned)"

text \<open>
  The loop \<^verbatim>\<open>for (u8 byte : reader)\<close> of \<^verbatim>\<open>searchValue\<close>, with the state \<open>bytes\<close> (a
  64-bit shift register), \<open>address\<close>, \<open>validBytes\<close> and \<open>results\<close>.
\<close>

fun searchValue_loop ::
  "'f FloatLib \<Rightarrow> Task \<Rightarrow> Value \<Rightarrow> 'f Numeric \<Rightarrow> 'f Numeric \<Rightarrow> nat \<Rightarrow> u8 list \<Rightarrow> nat \<Rightarrow> nat \<Rightarrow> nat
     \<Rightarrow> Occurrence list \<Rightarrow> Occurrence list outcome" where
  "searchValue_loop fl t settings min_v max_v sizeBytes [] bytes address validBytes results = (Inr results, t)"
| "searchValue_loop fl t settings min_v max_v sizeBytes (byte # rest) bytes address validBytes results =
     (let shifted = (bytes * 256) mod 2 ^ 64 OR unat byte
      in if validBytes = sizeBytes then
           (let masked = shifted AND bitmask (sizeBytes * 8)
            in case task_update t of
                 None \<Rightarrow> (Inl TaskInterruptor, t)
               | Some t' \<Rightarrow>
                   searchValue_loop fl t' settings min_v max_v sizeBytes rest masked (address + 1) validBytes
                     (if windowInRange fl min_v max_v sizeBytes (endian_v settings) masked
                      then results @ [\<lparr>region = Region (address - (sizeBytes - 1)) sizeBytes,
                                       decodeType = valueDecodeType (type_v settings),
                                       endian = endian_v settings\<rparr>]
                      else results))
         else searchValue_loop fl t settings min_v max_v sizeBytes rest shifted (address + 1) (validBytes + 1) results)"

definition searchValue ::
  "'f FloatLib \<Rightarrow> Task \<Rightarrow> u8 list \<Rightarrow> nat \<Rightarrow> Value \<Rightarrow> Occurrence list outcome" where
  "searchValue fl t H start settings =
     (let (validMin, min_v, sizeMin) = parseNumericValueInput fl (inputMin settings) (type_v settings);
          (validMax, max_v, sizeMax) = parseNumericValueInput fl (inputMax settings) (type_v settings)
      in if \<not> validMin \<or> \<not> validMax \<or> sizeMin \<noteq> sizeMax then (Inr [], t)
         else searchValue_loop fl t settings min_v max_v sizeMin H 0 start 0 [])"

subsection \<open>runSearch\<close>

datatype Mode = ModeStrings | ModeSequence | ModeRegex | ModeBinaryPattern | ModeValue

datatype SelectedRegion = EntireData | Selection

record Sequence =
  sequence_s :: string

text \<open>\<^verbatim>\<open>SearchSettings::BinaryPattern\<close>: the text and the pattern parsed from it.\<close>

record BinaryPatternSettings =
  input_bp :: string
  pattern_bp :: "BinaryPattern list"

record SearchSettings =
  range_s :: SelectedRegion
  mode_s :: Mode
  strings_s :: Strings
  bytes_s :: Sequence
  regex_s :: Regex
  binaryPattern_s :: BinaryPatternSettings
  value_s :: Value

text \<open>
  What the view uses of a provider: its base address and its bytes
  (\<^verbatim>\<open>getActualSize\<close> is their number).
\<close>

record Provider =
  baseAddress :: nat
  providerBytes :: "u8 list"

text \<open>
  The helpers taken as parameters: \<^verbatim>\<open>hex::decodeByteString\<close> (not among the sources),
  the regex library and the floating-point operations.
\<close>

record ('r, 'f) Libs =
  decodeByteString :: "string \<Rightarrow> u8 list"
  regexLib :: "'r RegexLib"
  floatLib :: "'f FloatLib"

text \<open>
  The members of the view that hold results, each a \<^verbatim>\<open>std::map\<close> keyed by the provider
  (\<open>'p\<close> is the provider's identity). \<^verbatim>\<open>operator[]\<close> creates an empty entry for a missing
  key, so a map is a total function.
\<close>

record 'p ViewFind =
  m_foundOccurrences :: "'p \<Rightarrow> Occurrence list"
  m_sortedOccurrences :: "'p \<Rightarrow> Occurrence list"
  m_occurrenceTree :: "'p \<Rightarrow> (nat \<times> nat \<times> Occurrence) list"
  m_currFilter :: "'p \<Rightarrow> string"

text \<open>
  Modelled from the spec: \<^verbatim>\<open>Region::getEndAddress\<close> (the class is not among the sources):
  "end = start + size (exclusive)".
\<close>

fun getEndAddress :: "Region \<Rightarrow> nat" where
  "getEndAddress (Region a s) = a + s"

text \<open>The bytes of the provider that the reader yields for a region.\<close>

definition regionBytes :: "Provider \<Rightarrow> Region \<Rightarrow> u8 list" where
  "regionBytes provider r =
     take (getSize r) (drop (getStartAddress r - baseAddress provider) (providerBytes provider))"

text \<open>
  The first lambda of \<^verbatim>\<open>runSearch\<close>; \<open>selection\<close> is the selection of the hex editor,
  \<open>None\<close> when \<^verbatim>\<open>isSelectionValid()\<close> is false.
\<close>

definition searchRegion :: "SearchSettings \<Rightarrow> Provider \<Rightarrow> Region option \<Rightarrow> Region" where
  "searchRegion settings provider selection =
     (case selection of
        None \<Rightarrow> Region (baseAddress provider) (length (providerBytes provider))
      | Some r \<Rightarrow>
          if range_s settings = EntireData
          then Region (baseAddress provider) (length (providerBytes provider))
          else r)"

text \<open>The \<^verbatim>\<open>switch (settings.mode)\<close> of the task body.\<close>

definition dispatch ::
  "('r, 'f) Libs \<Rightarrow> Task \<Rightarrow> Provider \<Rightarrow> Region \<Rightarrow> SearchSettings \<Rightarrow> Occurrence list outcome" where
  "dispatch libs t provider r settings =
     (let H = regionBytes provider r; start = getStartAddress r
      in case mode_s settings of
           ModeStrings \<Rightarrow> searchStrings t H start (strings_s settings)
         | ModeSequence \<Rightarrow>
             searchSequence t H start (decodeByteString libs (sequence_s (bytes_s settings)))
         | ModeRegex \<Rightarrow> searchRegex (regexLib libs) t H start (regex_s settings)
         | ModeBinaryPattern \<Rightarrow> searchBinaryPattern t H start (pattern_bp (binaryPattern_s settings))
         | ModeValue \<Rightarrow> searchValue (floatLib libs) t H start (value_s settings))"

text \<open>
  The task body of \<^verbatim>\<open>runSearch\<close>, run with the task handle \<open>t\<close> for the current provider
  \<open>p\<close>. The assignment to \<^verbatim>\<open>m_foundOccurrences[provider]\<close> takes place after the search
  function has returned; a fault that leaves the search function leaves the task body
  before any of the three assignments.
\<close>

definition runSearch ::
  "('r, 'f) Libs \<Rightarrow> 'p ViewFind \<Rightarrow> SearchSettings \<Rightarrow> 'p \<Rightarrow> Provider \<Rightarrow> Region option \<Rightarrow> Task
     \<Rightarrow> 'p ViewFind \<times> Task" where
  "runSearch libs view settings p provider selection t =
     (case dispatch libs t provider (searchRegion settings provider selection) settings of
        (Inl f, t') \<Rightarrow> (view, t')
      | (Inr found, t') \<Rightarrow>
          (view\<lparr>m_foundOccurrences := (m_foundOccurrences view)(p := found),
                 m_sortedOccurrences := (m_sortedOccurrences view)(p := found),
                 m_occurrenceTree := (m_occurrenceTree view)
                   (p := map (\<lambda>occurrence. (getStartAddress (region occurrence),
                                               getEndAddress (region occurrence), occurrence)) found)\<rparr>,
           t'))"

subsection \<open>drawContent: the tabs, the search button and the filter\<close>

text \<open>
  The regex tab of \<^verbatim>\<open>drawContent\<close>: \<^verbatim>\<open>m_settingsValid\<close> is set when the pattern compiles
  (the \<^verbatim>\<open>try\<close> block) and cleared again when the pattern is empty.
\<close>

definition regexTab :: "'r RegexLib \<Rightarrow> Regex \<Rightarrow> bool" where
  "regexTab lib settings =
     (let valid = (case regex_compile lib (pattern_rx settings) of Some regex \<Rightarrow> True | None \<Rightarrow> False)
      in if pattern_rx settings = [] then False else valid)"

text \<open>
  The binary-pattern tab of \<^verbatim>\<open>drawContent\<close>: the text is parsed on every frame and the
  settings are valid when the parsed pattern is not empty. The result is the pair of
  \<^verbatim>\<open>settings.pattern\<close> and \<^verbatim>\<open>m_settingsValid\<close>.
\<close>

definition binaryPatternTab :: "string \<Rightarrow> BinaryPattern list \<times> bool" where
  "binaryPatternTab input =
     (let pattern = parseBinaryPatternString input in (pattern, pattern \<noteq> []))"

text \<open>
  The search button of \<^verbatim>\<open>drawContent\<close>: it is disabled unless \<^verbatim>\<open>m_settingsValid\<close> holds,
  and only a press of the enabled button calls \<^verbatim>\<open>runSearch\<close>.
\<close>

definition searchButton ::
  "bool \<Rightarrow> ('r, 'f) Libs \<Rightarrow> 'p ViewFind \<Rightarrow> SearchSettings \<Rightarrow> 'p \<Rightarrow> Provider \<Rightarrow> Region option \<Rightarrow> Task
     \<Rightarrow> 'p ViewFind \<times> Task" where
  "searchButton settingsValid libs view settings p provider selection t =
     (if settingsValid then runSearch libs view settings p provider selection t else (view, t))"


fun isInfix :: "string \<Rightarrow> string \<Rightarrow> bool" where
  "isInfix b [] = (b = [])"
| "isInfix b (x # xs) = (take (length b) (x # xs) = b \<or> isInfix b xs)"






section \<open>Terms of the properties\<close>

subsection \<open>Matches of a sequence and of a binary pattern\<close>

text \<open>The addresses at which the needle starts in a haystack whose first byte is at \<open>a\<close>.\<close>

fun all_matches :: "nat \<Rightarrow> u8 list \<Rightarrow> u8 list \<Rightarrow> nat list" where
  "all_matches a [] needle = []"
| "all_matches a (h # hs) needle =
     (if take (length needle) (h # hs) = needle then a # all_matches (Suc a) hs needle
      else all_matches (Suc a) hs needle)"

text \<open>
  A byte matches an entry when \<open>byte AND mask = value\<close>; a pattern matches at the head
  of a byte list when the list has a byte for every entry and each matches its entry.
\<close>

definition entryMatches :: "BinaryPattern \<Rightarrow> u8 \<Rightarrow> bool" where
  "entryMatches p b = (b AND mask_p p = value_p p)"

definition patternMatchesAt :: "BinaryPattern list \<Rightarrow> u8 list \<Rightarrow> bool" where
  "patternMatchesAt pattern bs = list_all2 entryMatches pattern (take (length pattern) bs)"

text \<open>The addresses at which the pattern matches in a range whose first byte is at \<open>a\<close>.\<close>

fun bp_matches :: "nat \<Rightarrow> u8 list \<Rightarrow> BinaryPattern list \<Rightarrow> nat list" where
  "bp_matches a [] pattern = []"
| "bp_matches a (b # bs) pattern =
     (if patternMatchesAt pattern (b # bs) then a # bp_matches (Suc a) bs pattern
      else bp_matches (Suc a) bs pattern)"

subsection \<open>The pattern text\<close>

text \<open>The number of double quotes of a text: the quotes are balanced when it is even.\<close>

definition quotes :: "string \<Rightarrow> nat" where
  "quotes s = length (filter (\<lambda>c. c = CHR 0x22) s)"

subsection \<open>Numeric bounds\<close>

text \<open>\<^verbatim>\<open>sizeof(Type)\<close> of the target type.\<close>

fun typeSize :: "ValueType \<Rightarrow> nat" where
  "typeSize U8 = 1" | "typeSize U16 = 2" | "typeSize U32 = 4" | "typeSize U64 = 8"
| "typeSize I8 = 1" | "typeSize I16 = 2" | "typeSize I32 = 4" | "typeSize I64 = 8"
| "typeSize F32 = 4" | "typeSize F64 = 8"

text \<open>
  What the standard conversion of the type returns for a text: the value as it is stored
  in the variant, and the number of characters processed.
\<close>

fun converted :: "'f FloatLib \<Rightarrow> ValueType \<Rightarrow> string \<Rightarrow> ('f Numeric \<times> nat) option" where
  "converted fl F32 s = map_option (\<lambda>(d, n). (FVal (to_float fl d), n)) (stod fl s)"
| "converted fl F64 s = map_option (\<lambda>(d, n). (DVal d, n)) (stod fl s)"
| "converted fl ty s =
     (if ty \<in> {U8, U16, U32, U64} then map_option (\<lambda>(v, n). (UVal v, n)) (stoull s)
      else map_option (\<lambda>(v, n). (IVal v, n)) (stoll s))"

text \<open>The value lies in the range of the target type.\<close>

fun fitsType :: "'f FloatLib \<Rightarrow> ValueType \<Rightarrow> 'f Numeric \<Rightarrow> bool" where
  "fitsType fl F32 (FVal v) = (\<not> float_out_of_range fl v)"
| "fitsType fl F64 (DVal v) = (\<not> double_out_of_range fl v)"
| "fitsType fl ty (UVal v) = (ty \<in> {U8, U16, U32, U64} \<and> v < 2 ^ (8 * typeSize ty))"
| "fitsType fl ty (IVal v) =
     (ty \<in> {I8, I16, I32, I64} \<and> - (2 ^ (8 * typeSize ty - 1)) \<le> v \<and> v < 2 ^ (8 * typeSize ty - 1))"
| "fitsType fl ty x = False"

subsection \<open>Runs of valid bytes\<close>

text \<open>
  The runs of valid bytes as a scan finds them: a run ends on the first invalid byte or
  at the end of the range. \<open>runsFrom V a c bs\<close> lists, for the bytes \<open>bs\<close> at the address
  \<open>a\<close> that follow \<open>c\<close> valid bytes, every run with its start address, its length and
  the byte after it (\<open>None\<close> at the end of the range).
\<close>

fun runsFrom :: "(u8 \<Rightarrow> bool) \<Rightarrow> nat \<Rightarrow> nat \<Rightarrow> u8 list \<Rightarrow> (nat \<times> nat \<times> u8 option) list" where
  "runsFrom V a c [] = (if 0 < c then [(a - c, c, None)] else [])"
| "runsFrom V a c (b # bs) =
     (if V b then runsFrom V (Suc a) (Suc c) bs
      else (if 0 < c then [(a - c, c, Some b)] else []) @ runsFrom V (Suc a) 0 bs)"

text \<open>The occurrence of a run in the ASCII mode, and the condition under which it is emitted.\<close>

definition asciiOccurrence :: "nat \<times> nat \<times> u8 option \<Rightarrow> Occurrence" where
  "asciiOccurrence r = \<lparr>region = Region (fst r) (fst (snd r)), decodeType = DecodeASCII, endian = native\<rparr>"

definition runEmitted :: "Strings \<Rightarrow> nat \<times> nat \<times> u8 option \<Rightarrow> bool" where
  "runEmitted settings r =
     (nat (minLength settings) \<le> fst (snd r) \<and> (if nullTermination settings then snd (snd r) = Some 0x00 else True))"

text \<open>
  A maximal run of valid bytes, said without a scan: \<open>n\<close> bytes from the index \<open>i\<close>,
  at least one, all valid, with no valid byte directly before them or after them.
\<close>

definition maximalRun :: "(u8 \<Rightarrow> bool) \<Rightarrow> u8 list \<Rightarrow> nat \<Rightarrow> nat \<Rightarrow> bool" where
  "maximalRun V H i n =
     (0 < n \<and> i + n \<le> length H \<and> (\<forall>j<n. V (H ! (i + j)))
      \<and> (0 < i \<longrightarrow> \<not> V (H ! (i - 1))) \<and> (i + n < length H \<longrightarrow> \<not> V (H ! (i + n))))"

text \<open>The byte that follows the \<open>n\<close> bytes from the index \<open>i\<close>, if the range has one.\<close>

definition followingByte :: "u8 list \<Rightarrow> nat \<Rightarrow> nat \<Rightarrow> u8 option" where
  "followingByte H i n = (if i + n < length H then Some (H ! (i + n)) else None)"

subsection \<open>Decimal texts\<close>

text \<open>
  The decimal text of a natural number, without a sign and without leading zeros:
  \<open>decimal 0\<close> is "0" and \<open>decimal 255\<close> is "255".
\<close>

definition digitChar :: "nat \<Rightarrow> char" where
  "digitChar d = ''0123456789'' ! d"

function decimal :: "nat \<Rightarrow> string" where
  "decimal n = (if n < 10 then [digitChar n] else decimal (n div 10) @ [digitChar (n mod 10)])"
  by pat_completeness auto
termination
  by (relation "measure id") auto

declare decimal.simps [simp del]

subsection \<open>Cancellation of a task\<close>

text \<open>
  The task handle without its cancellation request, and whether the request of a handle
  is observed. A search that starts with the handle \<open>t\<close> and, left alone, ends with the
  handle \<open>tEnd\<close> makes the polls with the numbers from \<open>calls t\<close> up to but not
  including \<open>calls tEnd\<close>; the request of \<open>t\<close> is visible to a poll whose number is at
  least \<open>interruptAt t\<close>. The request is observed when there is such a poll.
\<close>

definition uncancelled :: "Task \<Rightarrow> Task" where
  "uncancelled t = t\<lparr>interruptAt := None\<rparr>"

definition cancellationObserved :: "Task \<Rightarrow> Task \<Rightarrow> bool" where
  "cancellationObserved t tEnd =
     (case interruptAt t of None \<Rightarrow> False | Some n \<Rightarrow> calls t < calls tEnd \<and> n < calls tEnd)"

text \<open>
  A computation on the task handle is cooperative at a handle without a request when a
  request changes nothing but this: if the computation polls at or after the request,
  it is left at the first such poll with the fault \<open>TaskInterruptor\<close>; otherwise it
  returns what it returns without the request.
\<close>

definition cooperative :: "(Task \<Rightarrow> 'a outcome) \<Rightarrow> Task \<Rightarrow> bool" where
  "cooperative F t =
     (interruptAt t = None \<longrightarrow>
        interruptAt (snd (F t)) = None \<and> calls t \<le> calls (snd (F t))
        \<and> (\<forall>n. F (t\<lparr>interruptAt := Some n\<rparr>) =
              (if calls t < calls (snd (F t)) \<and> n < calls (snd (F t))
               then (Inl TaskInterruptor, t\<lparr>calls := max n (calls t), interruptAt := Some n\<rparr>)
               else (fst (F t), (snd (F t))\<lparr>interruptAt := Some n\<rparr>))))"

subsection \<open>The vector during a filter pass\<close>


section \<open>Concrete inputs\<close>

text \<open>
  A floating-point library for concrete inputs of integer type: floating-point values
  are bit patterns, and no text is converted.
\<close>

definition noFloats :: "nat FloatLib" where
  "noFloats = \<lparr>stod = (\<lambda>s. None), to_float = (\<lambda>d. d), float_out_of_range = (\<lambda>v. False),
     double_out_of_range = (\<lambda>v. False), float_of_bits = (\<lambda>b. b), double_of_bits = (\<lambda>b. b),
     fp_le = (\<lambda>a b. a \<le> b)\<rparr>"

text \<open>
  Concrete libraries, settings, provider and view for the evaluation of concrete inputs.
  In \<open>literalRegex\<close> a pattern is a literal text, and the text of a single opening
  parenthesis does not compile.
\<close>

definition literalRegex :: "string RegexLib" where
  "literalRegex = \<lparr>regex_compile = (\<lambda>p. if p = ''('' then None else Some p),
     regex_match = (\<lambda>s r. s = r), regex_search = (\<lambda>s r. isInfix r s)\<rparr>"

definition exampleLibs :: "(string, nat) Libs" where
  "exampleLibs = \<lparr>decodeByteString = map of_char, regexLib = literalRegex, floatLib = noFloats\<rparr>"

definition exampleStrings :: Strings where
  "exampleStrings = \<lparr>minLength = 2, nullTermination = False, type = ASCII,
     lowerCaseLetters = True, upperCaseLetters = True, numbers = True, underscores = True,
     symbols = True, spaces = True, lineFeeds = False\<rparr>"

definition exampleRegex :: Regex where
  "exampleRegex = \<lparr>minLength_rx = 1, nullTermination_rx = False, type_rx = ASCII,
     pattern_rx = ''('', fullMatch = False\<rparr>"

definition exampleSettings :: SearchSettings where
  "exampleSettings = \<lparr>range_s = EntireData, mode_s = ModeStrings, strings_s = exampleStrings,
     bytes_s = \<lparr>sequence_s = []\<rparr>, regex_s = exampleRegex,
     binaryPattern_s = \<lparr>input_bp = [], pattern_bp = []\<rparr>,
     value_s = \<lparr>inputMin = [], inputMax = [], type_v = U8, endian_v = Little\<rparr>\<rparr>"

definition exampleProvider :: Provider where
  "exampleProvider = \<lparr>baseAddress = 0, providerBytes = [0x61, 0x62, 0x01, 0x63, 0x64]\<rparr>"

definition exampleView :: "nat ViewFind" where
  "exampleView =
     \<lparr>m_foundOccurrences = (\<lambda>p. [\<lparr>region = Region 7 1, decodeType = DecodeBinary, endian = Little\<rparr>]),
      m_sortedOccurrences = (\<lambda>p. [\<lparr>region = Region 7 1, decodeType = DecodeBinary, endian = Little\<rparr>]),
      m_occurrenceTree =
        (\<lambda>p. [(7, 8, \<lparr>region = Region 7 1, decodeType = DecodeBinary, endian = Little\<rparr>)]),
      m_currFilter = (\<lambda>p. [])\<rparr>"

text \<open>
  Settings of a sequence search for "zz", which does not occur in the bytes of the
  example provider, and settings of a regex search whose pattern compiles.
\<close>

definition sequenceSettings :: SearchSettings where
  "sequenceSettings = exampleSettings\<lparr>mode_s := ModeSequence, bytes_s := \<lparr>sequence_s = ''zz''\<rparr>\<rparr>"

definition validRegexSettings :: SearchSettings where
  "validRegexSettings = exampleSettings\<lparr>mode_s := ModeRegex, regex_s := exampleRegex\<lparr>pattern_rx := ''a''\<rparr>\<rparr>"

text \<open>
  Task handles of a search whose cancellation is requested after two polls and after one
  poll have returned.
\<close>

definition cancelledAfterTwoPolls :: Task where
  "cancelledAfterTwoPolls = \<lparr>calls = 0, interruptAt = Some 2\<rparr>"

definition cancelledAfterOnePoll :: Task where
  "cancelledAfterOnePoll = \<lparr>calls = 0, interruptAt = Some 1\<rparr>"




section \<open>Proofs\<close>

subsection \<open>Polls of the task\<close>

lemma task_update_running:
  "interruptAt t = None \<Longrightarrow> task_update t = Some (t\<lparr>calls := Suc (calls t)\<rparr>)"
  by (simp add: task_update_def shouldInterrupt_def)

lemma task_update_Some:
  "task_update t = Some t' \<Longrightarrow> interruptAt t' = interruptAt t \<and> calls t' = Suc (calls t)"
  by (auto simp: task_update_def split: if_splits)

subsection \<open>Sequence search finds every occurrence\<close>

lemma std_search_le: "std_search hs needle \<le> length hs"
  by (induction hs) auto

lemma all_matches_none:
  "std_search hs needle = length hs \<Longrightarrow> all_matches a hs needle = []"
  by (induction hs arbitrary: a) (auto split: if_splits)

lemma all_matches_first:
  "std_search hs needle < length hs \<Longrightarrow>
   all_matches a hs needle =
     (a + std_search hs needle) #
       all_matches (Suc (a + std_search hs needle)) (drop (Suc (std_search hs needle)) hs) needle"
  by (induction hs arbitrary: a) (auto split: if_splits)

lemma all_matches_filter:
  "all_matches a hs needle =
     map (\<lambda>i. a + i) (filter (\<lambda>i. take (length needle) (drop i hs) = needle) [0..<length hs])"
proof (induction hs arbitrary: a)
  case Nil
  then show ?case by simp
next
  case (Cons h hs)
  have upt: "[0..<length (h # hs)] = 0 # map Suc [0..<length hs]"
    by (simp add: upt_conv_Cons map_Suc_upt del: upt_Suc)
  show ?case
    unfolding upt by (simp add: Cons.IH filter_map comp_def)
qed

lemma searchSequence_loop_matches:
  "interruptAt t = None \<Longrightarrow> start \<le> first \<Longrightarrow>
   fst (searchSequence_loop t H start bytes first results) =
     Inr (results @ map (\<lambda>a. \<lparr>region = Region a (length bytes), decodeType = DecodeBinary, endian = native\<rparr>)
                        (all_matches first (readerFrom H start first) bytes))"
proof (induction t H start bytes first results rule: searchSequence_loop.induct)
  case (1 t H start bytes first results)
  let ?t' = "t\<lparr>calls := Suc (calls t)\<rparr>"
  let ?rest = "readerFrom H start first"
  let ?k = "std_search ?rest bytes"
  have upd: "task_update t = Some ?t'"
    using "1.prems" by (simp add: task_update_running)
  show ?case
  proof (cases "?k = length ?rest")
    case True
    then show ?thesis
      by (subst searchSequence_loop.simps) (simp add: upd all_matches_none)
  next
    case False
    then have lt: "?k < length ?rest"
      using std_search_le [of ?rest bytes] by simp
    have drop: "readerFrom H start (first + ?k + 1) = drop (Suc ?k) ?rest"
      using "1.prems" by (simp add: readerFrom_def Suc_diff_le add.commute)
    have IH: "fst (searchSequence_loop ?t' H start bytes (first + ?k + 1)
                 (results @ [\<lparr>region = Region (first + ?k) (length bytes), decodeType = DecodeBinary, endian = native\<rparr>])) =
       Inr ((results @ [\<lparr>region = Region (first + ?k) (length bytes), decodeType = DecodeBinary, endian = native\<rparr>]) @
            map (\<lambda>a. \<lparr>region = Region a (length bytes), decodeType = DecodeBinary, endian = native\<rparr>)
              (all_matches (first + ?k + 1) (readerFrom H start (first + ?k + 1)) bytes))"
      using "1.IH" [OF upd refl refl False refl] "1.prems" by simp
    show ?thesis
      by (subst searchSequence_loop.simps)
         (simp add: upd False Let_def IH [simplified] all_matches_first [OF lt] drop [simplified])
  qed
qed

text \<open>
  Claim C1, as amended. For every non-empty byte sequence and every range \<open>H\<close> whose first
  byte is at address \<open>start\<close>, a search that is not interrupted returns, in ascending
  order, exactly one occurrence for every index \<open>i\<close> with \<open>H[i : i + len] = bytes\<close>,
  overlapping ones included (the scan resumes one byte past the start of a match);
  each occurrence starts at \<open>start + i\<close> and spans \<open>length bytes\<close> bytes. For the empty
  sequence the function returns no occurrence, without a scan and without a poll of the
  task.
\<close>

theorem searchSequence_finds_all:
  "(bytes \<noteq> [] \<and> interruptAt t = None \<longrightarrow>
      fst (searchSequence t H start bytes) =
        Inr (map (\<lambda>i. \<lparr>region = Region (start + i) (length bytes), decodeType = DecodeBinary,
                         endian = native\<rparr>)
               (filter (\<lambda>i. take (length bytes) (drop i H) = bytes) [0..<length H])))
   \<and> searchSequence t H start [] = (Inr [], t)"
proof (intro conjI impI)
  assume "bytes \<noteq> [] \<and> interruptAt t = None"
  then show "fst (searchSequence t H start bytes) =
      Inr (map (\<lambda>i. \<lparr>region = Region (start + i) (length bytes), decodeType = DecodeBinary,
                       endian = native\<rparr>)
             (filter (\<lambda>i. take (length bytes) (drop i H) = bytes) [0..<length H]))"
    using searchSequence_loop_matches [of t start start H bytes "[]"]
    by (simp add: searchSequence_def readerFrom_def all_matches_filter comp_def)
next
  show "searchSequence t H start [] = (Inr [], t)"
    by (simp add: searchSequence_def)
qed

text \<open>
  The sequence "aa" in "aaaa" at address 0: occurrences of two bytes at the addresses
  0, 1 and 2. The empty sequence over the same range: nothing, and the task as it was.
\<close>

theorem searchSequence_finds_all_witness:
  "[0x61, 0x61] \<noteq> ([] :: u8 list) \<and> interruptAt newTask = None
   \<and> fst (searchSequence newTask [0x61, 0x61, 0x61, 0x61] 0 [0x61, 0x61]) =
       Inr [\<lparr>region = Region 0 2, decodeType = DecodeBinary, endian = Little\<rparr>,
            \<lparr>region = Region 1 2, decodeType = DecodeBinary, endian = Little\<rparr>,
            \<lparr>region = Region 2 2, decodeType = DecodeBinary, endian = Little\<rparr>]
   \<and> searchSequence newTask [0x61, 0x61, 0x61, 0x61] 0 [] = (Inr [], newTask)"
proof -
  have ne: "[0x61, 0x61] \<noteq> ([] :: u8 list)"
    by simp
  have run: "interruptAt newTask = None"
    by (simp add: newTask_def)
  have idx: "[0..<length [0x61, 0x61, 0x61, 0x61 :: u8]] = [0, 1, 2, 3]"
    by (simp add: upt_rec)
  note inst = searchSequence_finds_all [of "[0x61, 0x61]" newTask "[0x61, 0x61, 0x61, 0x61]" 0]
  have "fst (searchSequence newTask [0x61, 0x61, 0x61, 0x61] 0 [0x61, 0x61]) =
       Inr [\<lparr>region = Region 0 2, decodeType = DecodeBinary, endian = Little\<rparr>,
            \<lparr>region = Region 1 2, decodeType = DecodeBinary, endian = Little\<rparr>,
            \<lparr>region = Region 2 2, decodeType = DecodeBinary, endian = Little\<rparr>]"
    using inst [THEN conjunct1] ne run unfolding idx by (simp add: numeral_2_eq_2 native_def)
  moreover have "searchSequence newTask [0x61, 0x61, 0x61, 0x61] 0 [] = (Inr [], newTask)"
    using inst [THEN conjunct2] .
  ultimately show ?thesis
    using ne run by blast
qed

text \<open>
  The claim as stated, for every pattern, fails for the empty one: the empty sequence
  matches at index 0 of a one-byte range (\<open>H[0 : 0 + 0]\<close> is the empty sequence), and
  \<^verbatim>\<open>searchSequence\<close> returns no occurrence (the guard \<^verbatim>\<open>if (bytes.empty()) return { }\<close>).
\<close>

theorem searchSequence_empty_pattern_counterexample:
  "take (length ([] :: u8 list)) (drop 0 [0x61 :: u8]) = []
   \<and> fst (searchSequence newTask [0x61] 0 []) = Inr []"
  by (simp add: searchSequence_def)

subsection \<open>The grammar of the pattern text\<close>

lemma hexCharToValue_isxdigit: "hexCharToValue c = Some v \<Longrightarrow> isxdigit (of_char c)"
  by (auto simp: hexCharToValue_def isxdigit_def Let_def split: if_splits)

lemma isxdigit_not_special: "isxdigit (of_char c) \<Longrightarrow> c \<noteq> CHR 0x22 \<and> c \<noteq> CHR ''?''"
  by (auto simp: isxdigit_def isdigit_def)

lemma parse_digit_wildcard:
  assumes "hexCharToValue h = Some v"
  shows "parseBinaryPatternString [h, CHR ''?''] = [\<lparr>mask_p = 0xF0, value_p = push_bit 4 v\<rparr>]"
proof -
  have x: "isxdigit (of_char h)" using assms by (rule hexCharToValue_isxdigit)
  have n: "h \<noteq> CHR 0x22" "h \<noteq> CHR ''?''" using isxdigit_not_special [OF x] by simp_all
  have q: "\<not> isxdigit (of_char (CHR ''?''))" by (simp add: isxdigit_def isdigit_def)
  show ?thesis
    using x n q assms
    by (simp add: parseBinaryPatternString_def parsePattern_loop.simps [of "[h, CHR ''?'']"]
        parsePattern_loop.simps [of "[]"])
qed

lemma parse_wildcard_digit:
  assumes "hexCharToValue h = Some v"
  shows "parseBinaryPatternString [CHR ''?'', h] = [\<lparr>mask_p = 0x0F, value_p = v\<rparr>]"
proof -
  have x: "isxdigit (of_char h)" using assms by (rule hexCharToValue_isxdigit)
  have n: "h \<noteq> CHR 0x22" "h \<noteq> CHR ''?''" using isxdigit_not_special [OF x] by simp_all
  have q: "\<not> isxdigit (of_char (CHR ''?''))" by (simp add: isxdigit_def isdigit_def)
  show ?thesis
    using x n q assms
    by (simp add: parseBinaryPatternString_def parsePattern_loop.simps [of "[CHR ''?'', h]"]
        parsePattern_loop.simps [of "[]"])
qed

lemma parseNibbles_no_quote: "parseNibbles cs p = Some q \<Longrightarrow> CHR 0x22 \<notin> set cs"
  by (induction cs arbitrary: p) (auto simp: Let_def isxdigit_def isdigit_def split: if_splits option.splits)

lemma quotes_drop2:
  assumes "CHR 0x22 \<notin> set (take 2 s)"
  shows "quotes (drop 2 s) = quotes s"
proof -
  have "filter (\<lambda>c. c = CHR 0x22) s =
      filter (\<lambda>c. c = CHR 0x22) (take 2 s) @ filter (\<lambda>c. c = CHR 0x22) (drop 2 s)"
    by (metis append_take_drop_id filter_append)
  moreover have "filter (\<lambda>c. c = CHR 0x22) (take 2 s) = []"
    using assms by (auto simp: filter_empty_conv)
  ultimately show ?thesis
    by (simp add: quotes_def)
qed

lemma quotes_drop1:
  "s \<noteq> [] \<Longrightarrow> quotes (drop (Suc 0) s) = (if hd s = CHR 0x22 then quotes s - 1 else quotes s)"
  by (cases s) (auto simp: quotes_def)

lemma quotes_pos: "s \<noteq> [] \<Longrightarrow> hd s = CHR 0x22 \<Longrightarrow> 0 < quotes s"
  by (cases s) (auto simp: quotes_def)

lemma parsePattern_loop_unbalanced:
  "inString = even (quotes string) \<Longrightarrow> parsePattern_loop string inString result = []"
proof (induction string inString result rule: parsePattern_loop.induct)
  case (1 string inString result)
  show ?case
  proof (cases "string = []")
    case True
    with "1.prems" show ?thesis
      by (simp add: parsePattern_loop.simps [of "[]"] quotes_def)
  next
    case ne: False
    show ?thesis
    proof (cases "hd string = CHR 0x22")
      case True
      have "(\<not> inString) = even (quotes (drop 1 string))"
        using "1.prems" ne True quotes_pos [OF ne True] by (simp add: quotes_drop1)
      from "1.IH"(1) [OF ne True this] show ?thesis
        using ne True by (subst parsePattern_loop.simps) simp
    next
      case nq: False
      have d1: "quotes (drop 1 string) = quotes string"
        using ne nq by (simp add: quotes_drop1)
      show ?thesis
      proof (cases inString)
        case True
        from "1.IH"(2) [OF ne nq True] "1.prems" d1 show ?thesis
          using ne nq True by (subst parsePattern_loop.simps) simp
      next
        case ns: False
        show ?thesis
        proof (cases "take 2 string = ''??''")
          case True
          then have "CHR 0x22 \<notin> set (take 2 string)" by simp
          then have "quotes (drop 2 string) = quotes string" by (rule quotes_drop2)
          with "1.IH"(3) [OF ne nq ns True] "1.prems" show ?thesis
            using ne nq ns True by (subst parsePattern_loop.simps) simp
        next
          case nw: False
          show ?thesis
          proof (cases "(isxdigit (of_char (hd string)) \<or> hd string = CHR ''?'') \<and> 2 \<le> length string")
            case True
            show ?thesis
            proof (cases "parseNibbles (take 2 string) \<lparr>mask_p = 0, value_p = 0\<rparr>")
              case None
              then show ?thesis
                using ne nq ns nw True by (subst parsePattern_loop.simps) simp
            next
              case (Some pattern)
              then have "CHR 0x22 \<notin> set (take 2 string)" by (rule parseNibbles_no_quote)
              then have "quotes (drop 2 string) = quotes string" by (rule quotes_drop2)
              with "1.IH"(4) [OF ne nq ns nw True Some] "1.prems" show ?thesis
                using ne nq ns nw True Some by (subst parsePattern_loop.simps) simp
            qed
          next
            case nt: False
            show ?thesis
            proof (cases "isspace (of_char (hd string))")
              case True
              with "1.IH"(5) [OF ne nq ns nw nt True] "1.prems" d1 show ?thesis
                using ne nq ns nw nt by (subst parsePattern_loop.simps) auto
            next
              case False
              then show ?thesis
                using ne nq ns nw nt by (subst parsePattern_loop.simps) auto
            qed
          qed
        qed
      qed
    qed
  qed
qed

text \<open>
  Claim C4. \<^verbatim>\<open>parseBinaryPatternString\<close> follows the grammar: four hexadecimal tokens give
  four entries with mask 0xFF and the bytes as values; the token \<^verbatim>\<open>??\<close> gives the entry
  with mask 0x00 and value 0x00; a quoted literal gives one entry with mask 0xFF for each
  character; a token that mixes a hexadecimal digit and \<^verbatim>\<open>?\<close> has mask 0 on the nibble of
  the \<^verbatim>\<open>?\<close> and mask 0xF with the digit's value on the other; the single character
  \<^verbatim>\<open>D\<close> and every text with unbalanced quotes give the empty result.
\<close>

theorem parseBinaryPatternString_grammar:
  "parseBinaryPatternString ''DE AD BE EF'' =
     [\<lparr>mask_p = 0xFF, value_p = 0xDE\<rparr>, \<lparr>mask_p = 0xFF, value_p = 0xAD\<rparr>,
      \<lparr>mask_p = 0xFF, value_p = 0xBE\<rparr>, \<lparr>mask_p = 0xFF, value_p = 0xEF\<rparr>]
   \<and> parseBinaryPatternString ''DE ?? BE EF'' =
     [\<lparr>mask_p = 0xFF, value_p = 0xDE\<rparr>, \<lparr>mask_p = 0x00, value_p = 0x00\<rparr>,
      \<lparr>mask_p = 0xFF, value_p = 0xBE\<rparr>, \<lparr>mask_p = 0xFF, value_p = 0xEF\<rparr>]
   \<and> parseBinaryPatternString [CHR 0x22, CHR ''A'', CHR ''B'', CHR 0x22] =
     [\<lparr>mask_p = 0xFF, value_p = of_char (CHR ''A'')\<rparr>, \<lparr>mask_p = 0xFF, value_p = of_char (CHR ''B'')\<rparr>]
   \<and> (hexCharToValue h = Some v \<longrightarrow>
        parseBinaryPatternString [h, CHR ''?''] = [\<lparr>mask_p = 0xF0, value_p = push_bit 4 v\<rparr>]
        \<and> parseBinaryPatternString [CHR ''?'', h] = [\<lparr>mask_p = 0x0F, value_p = v\<rparr>])
   \<and> parseBinaryPatternString ''D'' = []
   \<and> (odd (quotes string) \<longrightarrow> parseBinaryPatternString string = [])"
proof -
  have "parseBinaryPatternString ''DE AD BE EF'' =
     [\<lparr>mask_p = 0xFF, value_p = 0xDE\<rparr>, \<lparr>mask_p = 0xFF, value_p = 0xAD\<rparr>,
      \<lparr>mask_p = 0xFF, value_p = 0xBE\<rparr>, \<lparr>mask_p = 0xFF, value_p = 0xEF\<rparr>]"
    by code_simp
  moreover have "parseBinaryPatternString ''DE ?? BE EF'' =
     [\<lparr>mask_p = 0xFF, value_p = 0xDE\<rparr>, \<lparr>mask_p = 0x00, value_p = 0x00\<rparr>,
      \<lparr>mask_p = 0xFF, value_p = 0xBE\<rparr>, \<lparr>mask_p = 0xFF, value_p = 0xEF\<rparr>]"
    by code_simp
  moreover have "parseBinaryPatternString [CHR 0x22, CHR ''A'', CHR ''B'', CHR 0x22] =
     [\<lparr>mask_p = 0xFF, value_p = of_char (CHR ''A'')\<rparr>, \<lparr>mask_p = 0xFF, value_p = of_char (CHR ''B'')\<rparr>]"
    by code_simp
  moreover have "parseBinaryPatternString ''D'' = []"
    by (simp add: parseBinaryPatternString_def)
  moreover have "odd (quotes string) \<longrightarrow> parseBinaryPatternString string = []"
    by (simp add: parseBinaryPatternString_def parsePattern_loop_unbalanced)
  ultimately show ?thesis
    using parse_digit_wildcard [of h v] parse_wildcard_digit [of h v] by blast
qed

text \<open>
  The digit \<^verbatim>\<open>D\<close> (value 13) mixed with \<^verbatim>\<open>?\<close>, and the text \<^verbatim>\<open>"AB\<close> with one quote.
\<close>

theorem parseBinaryPatternString_grammar_witness:
  "hexCharToValue (CHR ''D'') = Some 13
   \<and> parseBinaryPatternString ''D?'' = [\<lparr>mask_p = 0xF0, value_p = 0xD0\<rparr>]
   \<and> parseBinaryPatternString ''?D'' = [\<lparr>mask_p = 0x0F, value_p = 0x0D\<rparr>]
   \<and> odd (quotes [CHR 0x22, CHR ''A'', CHR ''B''])
   \<and> parseBinaryPatternString [CHR 0x22, CHR ''A'', CHR ''B''] = []"
proof -
  have d: "hexCharToValue (CHR ''D'') = Some 13"
    by (simp add: hexCharToValue_def isdigit_def)
  have q: "odd (quotes [CHR 0x22, CHR ''A'', CHR ''B''])"
    by (simp add: quotes_def)
  have p: "push_bit 4 (13 :: u8) = 0xD0"
    by simp
  show ?thesis
    using d q p
      parseBinaryPatternString_grammar [of "CHR ''D''" 13 "[CHR 0x22, CHR ''A'', CHR ''B'']"]
    by simp
qed

subsection \<open>The scan of a binary pattern\<close>

lemma bp_matches_short: "length xs < length pattern \<Longrightarrow> bp_matches a xs pattern = []"
  by (induction xs arbitrary: a) (auto simp: patternMatchesAt_def dest: list_all2_lengthD)

lemma bp_matches_step:
  "xs \<noteq> [] \<Longrightarrow>
   bp_matches a xs pattern =
     (if patternMatchesAt pattern xs then [a] else []) @ bp_matches (Suc a) (tl xs) pattern"
  by (cases xs) auto

lemma extend_match:
  "list_all2 entryMatches (take m pattern) (take m xs) \<Longrightarrow> m < length pattern \<Longrightarrow> m < length xs \<Longrightarrow>
   entryMatches (pattern ! m) (xs ! m) \<Longrightarrow>
   list_all2 entryMatches (take (Suc m) pattern) (take (Suc m) xs)"
  by (simp add: take_Suc_conv_app_nth list_all2_appendI)

lemma mismatch_no_match:
  "m < length pattern \<Longrightarrow> \<not> entryMatches (pattern ! m) (xs ! m) \<Longrightarrow> \<not> patternMatchesAt pattern xs"
  by (auto simp: patternMatchesAt_def list_all2_conv_all_nth)

lemma bp_matches_filter:
  "bp_matches a xs pattern =
     map (\<lambda>i. a + i) (filter (\<lambda>i. patternMatchesAt pattern (drop i xs)) [0..<length xs])"
proof (induction xs arbitrary: a)
  case Nil
  then show ?case by simp
next
  case (Cons h hs)
  have upt: "[0..<length (h # hs)] = 0 # map Suc [0..<length hs]"
    by (simp add: upt_conv_Cons map_Suc_upt del: upt_Suc)
  show ?case
    unfolding upt by (simp add: Cons.IH filter_map comp_def)
qed

lemma searchBinaryPattern_loop_matches:
  assumes "interruptAt t = None" and "matchedBytes < length pattern" and "start + matchedBytes \<le> it"
    and "list_all2 entryMatches (take matchedBytes pattern)
           (take matchedBytes (drop (it - matchedBytes - start) H))"
  shows "fst (searchBinaryPattern_loop t H start pattern it matchedBytes results) =
     Inr (results @ map (\<lambda>a. \<lparr>region = Region a (length pattern), decodeType = DecodeBinary, endian = native\<rparr>)
            (bp_matches (it - matchedBytes) (drop (it - matchedBytes - start) H) pattern))"
  using assms
proof (induction t H start pattern it matchedBytes results rule: searchBinaryPattern_loop.induct)
  case (1 t H start pattern it m results)
  let ?s = "it - m"
  let ?xs = "drop (?s - start) H"
  let ?t' = "t\<lparr>calls := Suc (calls t)\<rparr>"
  let ?occ = "\<lambda>a. \<lparr>region = Region a (length pattern), decodeType = DecodeBinary, endian = native\<rparr>"
  have upd: "task_update t = Some ?t'"
    using "1.prems"(1) by (simp add: task_update_running)
  have run': "interruptAt ?t' = None"
    using "1.prems"(1) by simp
  have idx: "it - start = (?s - start) + m"
    using "1.prems"(3) by simp
  show ?case
  proof (cases "readerFrom H start it")
    case Nil
    then have "length ?xs \<le> m"
      using "1.prems"(3) by (simp add: readerFrom_def)
    then have "bp_matches ?s ?xs pattern = []"
      using "1.prems"(2) by (simp add: bp_matches_short)
    then show ?thesis
      using Nil by (subst searchBinaryPattern_loop.simps) simp
  next
    case (Cons byte rest)
    then have inb: "it - start < length H"
      by (cases "it - start < length H") (simp_all add: readerFrom_def)
    then have mlt: "m < length ?xs"
      using "1.prems"(3) by simp
    then have ne: "?xs \<noteq> []"
      by auto
    have byte: "byte = ?xs ! m"
    proof -
      have "byte = hd (drop (it - start) H)"
        using Cons by (simp add: readerFrom_def)
      also have "\<dots> = H ! (it - start)"
        using inb by (simp add: hd_drop_conv_nth)
      also have "\<dots> = ?xs ! m"
        using inb idx by (simp add: add.commute)
      finally show ?thesis .
    qed
    have tl: "tl ?xs = drop (Suc ?s - start) H"
      using "1.prems"(3) by (simp add: drop_Suc [symmetric] tl_drop Suc_diff_le)
    have nb: "\<not> length pattern \<le> m"
      using "1.prems"(2) by simp
    show ?thesis
    proof (cases "byte AND mask_p (pattern ! m) = value_p (pattern ! m)")
      case True
      then have em: "entryMatches (pattern ! m) (?xs ! m)"
        by (simp add: entryMatches_def byte)
      have ext: "list_all2 entryMatches (take (Suc m) pattern) (take (Suc m) ?xs)"
        using "1.prems"(4) "1.prems"(2) mlt em by (rule extend_match)
      show ?thesis
      proof (cases "m + 1 = length pattern")
        case full: True
        then have "patternMatchesAt pattern ?xs"
          using ext by (simp add: patternMatchesAt_def)
        then have bm: "bp_matches ?s ?xs pattern = ?s # bp_matches (Suc ?s) (tl ?xs) pattern"
          using ne by (simp add: bp_matches_step)
        have addr: "it - (length pattern - 1) = ?s"
          using full by simp
        have "fst (searchBinaryPattern_loop ?t' H start pattern (?s + 1) 0 (results @ [?occ ?s])) =
            Inr ((results @ [?occ ?s]) @ map ?occ
              (bp_matches (?s + 1 - 0) (drop (?s + 1 - 0 - start) H) pattern))"
        proof -
          have "0 < length pattern" "start + 0 \<le> ?s + 1"
            using "1.prems"(2,3) by auto
          then show ?thesis
            using "1.IH"(1) [OF Cons upd nb True full refl run', unfolded addr] by simp
        qed
        then show ?thesis
          using Cons upd nb True full addr bm tl
          by (subst searchBinaryPattern_loop.simps) (simp add: Let_def)
      next
        case part: False
        have "fst (searchBinaryPattern_loop ?t' H start pattern (it + 1) (m + 1) results) =
            Inr (results @ map ?occ
              (bp_matches (it + 1 - (m + 1)) (drop (it + 1 - (m + 1) - start) H) pattern))"
        proof -
          have "m + 1 < length pattern" "start + (m + 1) \<le> it + 1"
            using "1.prems"(2,3) part by simp_all
          moreover have "it + 1 - (m + 1) = ?s"
            by simp
          ultimately show ?thesis
            using "1.IH"(2) [OF Cons upd nb True part run'] ext by simp
        qed
        then show ?thesis
          using Cons upd nb True part
          by (subst searchBinaryPattern_loop.simps) simp
      qed
    next
      case False
      then have "\<not> entryMatches (pattern ! m) (?xs ! m)"
        by (simp add: entryMatches_def byte)
      then have "\<not> patternMatchesAt pattern ?xs"
        using "1.prems"(2) by (rule mismatch_no_match [rotated])
      then have bm: "bp_matches ?s ?xs pattern = bp_matches (Suc ?s) (tl ?xs) pattern"
        using ne by (simp add: bp_matches_step)
      have next_it: "(if 0 < m then it - m else it) + 1 = ?s + 1"
        by simp
      have "fst (searchBinaryPattern_loop ?t' H start pattern (?s + 1) 0 results) =
          Inr (results @ map ?occ
            (bp_matches (?s + 1 - 0) (drop (?s + 1 - 0 - start) H) pattern))"
      proof -
        have "0 < length pattern" "start + 0 \<le> ?s + 1"
          using "1.prems"(2,3) by auto
        then show ?thesis
          using "1.IH"(3) [OF Cons upd nb False run', unfolded next_it] by simp
      qed
      then show ?thesis
        using Cons upd nb False bm tl
        by (subst searchBinaryPattern_loop.simps) (cases "m = 0"; simp)
    qed
  qed
qed

lemma searchBinaryPattern_loop_all:
  assumes "pattern \<noteq> []" and "interruptAt t = None"
  shows "fst (searchBinaryPattern t H start pattern) =
     Inr (map (\<lambda>i. \<lparr>region = Region (start + i) (length pattern), decodeType = DecodeBinary, endian = native\<rparr>)
            (filter (\<lambda>i. patternMatchesAt pattern (drop i H)) [0..<length H]))"
  using assms searchBinaryPattern_loop_matches [of t 0 pattern start start H "[]"]
  by (simp add: searchBinaryPattern_def bp_matches_filter comp_def)

lemma searchBinaryPattern_loop_in_bounds:
  "matchedBytes < length pattern \<Longrightarrow>
   fst (searchBinaryPattern_loop t H start pattern it matchedBytes results) \<noteq> Inl OutOfBounds"
proof (induction t H start pattern it matchedBytes results rule: searchBinaryPattern_loop.induct)
  case (1 t H start pattern it m results)
  have nb: "\<not> length pattern \<le> m" and pos: "0 < length pattern"
    using "1.prems" by auto
  show ?case
  proof (cases "readerFrom H start it")
    case Nil
    then show ?thesis
      by (subst searchBinaryPattern_loop.simps) simp
  next
    case (Cons byte rest)
    show ?thesis
    proof (cases "task_update t")
      case None
      then show ?thesis
        using Cons by (subst searchBinaryPattern_loop.simps) simp
    next
      case (Some t')
      show ?thesis
      proof (cases "byte AND mask_p (pattern ! m) = value_p (pattern ! m)")
        case True
        show ?thesis
        proof (cases "m + 1 = length pattern")
          case full: True
          from "1.IH"(1) [OF Cons Some nb True full refl pos] show ?thesis
            using Cons Some nb True full
            by (subst searchBinaryPattern_loop.simps) (simp add: Let_def)
        next
          case part: False
          then have "m + 1 < length pattern"
            using "1.prems" by simp
          from "1.IH"(2) [OF Cons Some nb True part this] show ?thesis
            using Cons Some nb True part
            by (subst searchBinaryPattern_loop.simps) simp
        qed
      next
        case False
        from "1.IH"(3) [OF Cons Some nb False pos] show ?thesis
          using Cons Some nb False
          by (subst searchBinaryPattern_loop.simps) simp
      qed
    qed
  qed
qed

lemma searchBinaryPattern_empty_pattern:
  "H \<noteq> [] \<Longrightarrow> \<not> shouldInterrupt t \<Longrightarrow> fst (searchBinaryPattern t H start []) = Inl OutOfBounds"
  by (cases H)
     (simp_all add: searchBinaryPattern_def searchBinaryPattern_loop.simps [of t] readerFrom_def
        task_update_def)

text \<open>
  Claim C3. The scan keeps the number \<open>m\<close> of consecutive matched positions, where a byte
  matches the entry \<open>k\<close> when \<open>byte AND mask = value\<close>. (1) On a mismatch with partial
  progress the position moves back by \<open>m - 1\<close> and the counter is reset. (2) On a full
  match an occurrence of the pattern's length that ends at the current position is
  emitted, and the scan resumes one byte past the start of the match. (3) So a scan
  that is not interrupted returns exactly the positions at which the whole pattern
  matches, overlapping ones included. (4) Over \<^verbatim>\<open>DE AD DE AD BE EF\<close> the pattern
  \<^verbatim>\<open>DE AD ?? EF\<close> has one match, at offset 2, of 4 bytes.
\<close>

theorem searchBinaryPattern_scan:
  "(readerFrom H start it = byte # rest \<and> task_update t = Some t' \<and> 0 < m \<and> m < length pattern
      \<and> m \<le> it \<and> byte AND mask_p (pattern ! m) \<noteq> value_p (pattern ! m) \<longrightarrow>
      searchBinaryPattern_loop t H start pattern it m results =
        searchBinaryPattern_loop t' H start pattern (it - (m - 1)) 0 results)
   \<and> (readerFrom H start it = byte # rest \<and> task_update t = Some t' \<and> m + 1 = length pattern
      \<and> m \<le> it \<and> byte AND mask_p (pattern ! m) = value_p (pattern ! m) \<longrightarrow>
      searchBinaryPattern_loop t H start pattern it m results =
        searchBinaryPattern_loop t' H start pattern (it - m + 1) 0
          (results @ [\<lparr>region = Region (it - m) (length pattern), decodeType = DecodeBinary, endian = native\<rparr>])
      \<and> (it - m) + length pattern = it + 1)
   \<and> (pattern \<noteq> [] \<and> interruptAt t = None \<longrightarrow>
      fst (searchBinaryPattern t H start pattern) =
        Inr (map (\<lambda>i. \<lparr>region = Region (start + i) (length pattern), decodeType = DecodeBinary, endian = native\<rparr>)
               (filter (\<lambda>i. patternMatchesAt pattern (drop i H)) [0..<length H])))
   \<and> fst (searchBinaryPattern newTask [0xDE, 0xAD, 0xDE, 0xAD, 0xBE, 0xEF] 0
            (parseBinaryPatternString ''DE AD ?? EF'')) =
        Inr [\<lparr>region = Region 2 4, decodeType = DecodeBinary, endian = Little\<rparr>]"
proof (intro conjI impI)
  assume a: "readerFrom H start it = byte # rest \<and> task_update t = Some t' \<and> 0 < m
    \<and> m < length pattern \<and> m \<le> it \<and> byte AND mask_p (pattern ! m) \<noteq> value_p (pattern ! m)"
  then have "it - m + 1 = it - (m - 1)"
    by auto
  with a show "searchBinaryPattern_loop t H start pattern it m results =
      searchBinaryPattern_loop t' H start pattern (it - (m - 1)) 0 results"
    by (subst searchBinaryPattern_loop.simps) simp
next
  assume a: "readerFrom H start it = byte # rest \<and> task_update t = Some t' \<and> m + 1 = length pattern
    \<and> m \<le> it \<and> byte AND mask_p (pattern ! m) = value_p (pattern ! m)"
  then have "it - (length pattern - 1) = it - m" and "\<not> length pattern \<le> m"
    by auto
  with a show "searchBinaryPattern_loop t H start pattern it m results =
      searchBinaryPattern_loop t' H start pattern (it - m + 1) 0
        (results @ [\<lparr>region = Region (it - m) (length pattern), decodeType = DecodeBinary, endian = native\<rparr>])"
    by (subst searchBinaryPattern_loop.simps) (simp add: Let_def)
  from a show "it - m + length pattern = it + 1"
    by auto
next
  assume "pattern \<noteq> [] \<and> interruptAt t = None"
  then show "fst (searchBinaryPattern t H start pattern) =
      Inr (map (\<lambda>i. \<lparr>region = Region (start + i) (length pattern), decodeType = DecodeBinary, endian = native\<rparr>)
             (filter (\<lambda>i. patternMatchesAt pattern (drop i H)) [0..<length H]))"
    by (simp add: searchBinaryPattern_loop_all)
next
  show "fst (searchBinaryPattern newTask [0xDE, 0xAD, 0xDE, 0xAD, 0xBE, 0xEF] 0
          (parseBinaryPatternString ''DE AD ?? EF'')) =
        Inr [\<lparr>region = Region 2 4, decodeType = DecodeBinary, endian = Little\<rparr>]"
    by code_simp
qed

text \<open>
  The scan of \<^verbatim>\<open>DE AD DE AD BE EF\<close> for \<^verbatim>\<open>DE AD ?? EF\<close>: the mismatch at address 3
  after three matched bytes resumes at address 1, and the full match at address 5
  emits the occurrence at address 2 and resumes at address 3.
\<close>

theorem searchBinaryPattern_scan_witness:
  "searchBinaryPattern_loop newTask [0xDE, 0xAD, 0xDE, 0xAD, 0xBE, 0xEF] 0
      [\<lparr>mask_p = 0xFF, value_p = 0xDE\<rparr>, \<lparr>mask_p = 0xFF, value_p = 0xAD\<rparr>,
       \<lparr>mask_p = 0x00, value_p = 0x00\<rparr>, \<lparr>mask_p = 0xFF, value_p = 0xEF\<rparr>] 3 3 [] =
    searchBinaryPattern_loop (newTask\<lparr>calls := 1\<rparr>) [0xDE, 0xAD, 0xDE, 0xAD, 0xBE, 0xEF] 0
      [\<lparr>mask_p = 0xFF, value_p = 0xDE\<rparr>, \<lparr>mask_p = 0xFF, value_p = 0xAD\<rparr>,
       \<lparr>mask_p = 0x00, value_p = 0x00\<rparr>, \<lparr>mask_p = 0xFF, value_p = 0xEF\<rparr>] 1 0 []
   \<and> searchBinaryPattern_loop newTask [0xDE, 0xAD, 0xDE, 0xAD, 0xBE, 0xEF] 0
      [\<lparr>mask_p = 0xFF, value_p = 0xDE\<rparr>, \<lparr>mask_p = 0xFF, value_p = 0xAD\<rparr>,
       \<lparr>mask_p = 0x00, value_p = 0x00\<rparr>, \<lparr>mask_p = 0xFF, value_p = 0xEF\<rparr>] 5 3 [] =
    searchBinaryPattern_loop (newTask\<lparr>calls := 1\<rparr>) [0xDE, 0xAD, 0xDE, 0xAD, 0xBE, 0xEF] 0
      [\<lparr>mask_p = 0xFF, value_p = 0xDE\<rparr>, \<lparr>mask_p = 0xFF, value_p = 0xAD\<rparr>,
       \<lparr>mask_p = 0x00, value_p = 0x00\<rparr>, \<lparr>mask_p = 0xFF, value_p = 0xEF\<rparr>] 3 0 [\<lparr>region = Region 2 4, decodeType = DecodeBinary, endian = native\<rparr>]
   \<and> fst (searchBinaryPattern newTask [0xDE, 0xAD, 0xDE, 0xAD, 0xBE, 0xEF] 0
      [\<lparr>mask_p = 0xFF, value_p = 0xDE\<rparr>, \<lparr>mask_p = 0xFF, value_p = 0xAD\<rparr>,
       \<lparr>mask_p = 0x00, value_p = 0x00\<rparr>, \<lparr>mask_p = 0xFF, value_p = 0xEF\<rparr>]) =
    Inr (map (\<lambda>i. \<lparr>region = Region (0 + i) 4, decodeType = DecodeBinary, endian = native\<rparr>)
      (filter (\<lambda>i. patternMatchesAt
          [\<lparr>mask_p = 0xFF, value_p = 0xDE\<rparr>, \<lparr>mask_p = 0xFF, value_p = 0xAD\<rparr>,
           \<lparr>mask_p = 0x00, value_p = 0x00\<rparr>, \<lparr>mask_p = 0xFF, value_p = 0xEF\<rparr>]
          (drop i [0xDE, 0xAD, 0xDE, 0xAD, 0xBE, 0xEF])) [0..<6]))"
proof -
  let ?H = "[0xDE, 0xAD, 0xDE, 0xAD, 0xBE, 0xEF] :: u8 list"
  let ?P = "[\<lparr>mask_p = 0xFF, value_p = 0xDE\<rparr>, \<lparr>mask_p = 0xFF, value_p = 0xAD\<rparr>,
             \<lparr>mask_p = 0x00, value_p = 0x00\<rparr>, \<lparr>mask_p = 0xFF, value_p = 0xEF\<rparr>]"
  let ?t' = "newTask\<lparr>calls := 1\<rparr>"
  have upd: "task_update newTask = Some ?t'"
    by (simp add: task_update_def shouldInterrupt_def newTask_def)
  have run: "interruptAt newTask = None"
    by (simp add: newTask_def)
  have r3: "readerFrom ?H 0 3 = 0xAD # [0xBE, 0xEF]"
    by (simp add: readerFrom_def numeral_3_eq_3)
  have r5: "readerFrom ?H 0 5 = 0xEF # []"
    by (simp add: readerFrom_def eval_nat_numeral)
  have p3: "?P ! 3 = \<lparr>mask_p = 0xFF, value_p = 0xEF\<rparr>"
    by (simp add: numeral_3_eq_3)
  have mis: "readerFrom ?H 0 3 = 0xAD # [0xBE, 0xEF] \<and> task_update newTask = Some ?t' \<and> (0 :: nat) < 3
      \<and> 3 < length ?P \<and> (3 :: nat) \<le> 3 \<and> 0xAD AND mask_p (?P ! 3) \<noteq> value_p (?P ! 3)"
    using upd r3 by (simp add: p3)
  have full: "readerFrom ?H 0 5 = 0xEF # [] \<and> task_update newTask = Some ?t' \<and> 3 + 1 = length ?P
      \<and> (3 :: nat) \<le> 5 \<and> 0xEF AND mask_p (?P ! 3) = value_p (?P ! 3)"
    using upd r5 by (simp add: p3)
  have all: "?P \<noteq> [] \<and> interruptAt newTask = None"
    using run by simp
  note thm1 = searchBinaryPattern_scan [of ?H 0 3 "0xAD" "[0xBE, 0xEF]" newTask ?t' 3 ?P "[]"]
  note thm2 = searchBinaryPattern_scan [of ?H 0 5 "0xEF" "[]" newTask ?t' 3 ?P "[]"]
  have c1: "searchBinaryPattern_loop newTask ?H 0 ?P 3 3 [] =
      searchBinaryPattern_loop ?t' ?H 0 ?P (3 - (3 - 1)) 0 []"
    using thm1 [THEN conjunct1] mis by blast
  have c2: "searchBinaryPattern_loop newTask ?H 0 ?P 5 3 [] =
      searchBinaryPattern_loop ?t' ?H 0 ?P (5 - 3 + 1) 0 ([] @ [\<lparr>region = Region (5 - 3) (length ?P), decodeType = DecodeBinary, endian = native\<rparr>])"
    using thm2 [THEN conjunct2, THEN conjunct1] full by blast
  have c3: "fst (searchBinaryPattern newTask ?H 0 ?P) =
      Inr (map (\<lambda>i. \<lparr>region = Region (0 + i) (length ?P), decodeType = DecodeBinary, endian = native\<rparr>)
             (filter (\<lambda>i. patternMatchesAt ?P (drop i ?H)) [0..<length ?H]))"
    using thm1 [THEN conjunct2, THEN conjunct2, THEN conjunct1] all by blast
  have n1: "(3 :: nat) - (3 - 1) = 1" and n2: "(2 :: nat) + 1 = 3" and n3: "(5 :: nat) - 3 = 2"
    by simp_all
  have len: "length ?P = 4" "length ?H = 6"
    by simp_all
  from c1 have c1': "searchBinaryPattern_loop newTask ?H 0 ?P 3 3 [] =
      searchBinaryPattern_loop ?t' ?H 0 ?P 1 0 []"
    by (simp only: n1)
  from c2 have c2': "searchBinaryPattern_loop newTask ?H 0 ?P 5 3 [] =
      searchBinaryPattern_loop ?t' ?H 0 ?P 3 0 [\<lparr>region = Region 2 4, decodeType = DecodeBinary, endian = native\<rparr>]"
    by (simp only: n2 n3 len append_Nil)
  from c3 have c3': "fst (searchBinaryPattern newTask ?H 0 ?P) =
      Inr (map (\<lambda>i. \<lparr>region = Region (0 + i) 4, decodeType = DecodeBinary, endian = native\<rparr>)
             (filter (\<lambda>i. patternMatchesAt ?P (drop i ?H)) [0..<6]))"
    by (simp only: len)
  from c1' c2' c3' show ?thesis
    by (intro conjI)
qed

subsection \<open>The pattern index stays in bounds\<close>

text \<open>
  Claim C10. For every non-empty pattern no read \<^verbatim>\<open>pattern[matchedBytes]\<close> of the scan
  is out of bounds, whatever the task does, and a scan that is not interrupted returns
  a result list. For the empty pattern the first read, at the first byte of a
  non-empty range, is out of bounds. The binary-pattern tab declares the settings valid
  only for a non-empty parsed pattern, so the search button rejects the empty one.
\<close>

theorem searchBinaryPattern_index_in_bounds:
  "(pattern \<noteq> [] \<longrightarrow> fst (searchBinaryPattern t H start pattern) \<noteq> Inl OutOfBounds)
   \<and> (pattern \<noteq> [] \<and> interruptAt t = None \<longrightarrow>
        (\<exists>results. fst (searchBinaryPattern t H start pattern) = Inr results))
   \<and> (H \<noteq> [] \<and> \<not> shouldInterrupt t \<longrightarrow> fst (searchBinaryPattern t H start []) = Inl OutOfBounds)
   \<and> (snd (binaryPatternTab input) \<longrightarrow> fst (binaryPatternTab input) \<noteq> [])"
proof (intro conjI impI)
  assume "pattern \<noteq> []"
  then show "fst (searchBinaryPattern t H start pattern) \<noteq> Inl OutOfBounds"
    by (simp add: searchBinaryPattern_def searchBinaryPattern_loop_in_bounds)
next
  assume "pattern \<noteq> [] \<and> interruptAt t = None"
  then show "\<exists>results. fst (searchBinaryPattern t H start pattern) = Inr results"
    by (simp add: searchBinaryPattern_loop_all)
next
  assume "H \<noteq> [] \<and> \<not> shouldInterrupt t"
  then show "fst (searchBinaryPattern t H start []) = Inl OutOfBounds"
    by (simp add: searchBinaryPattern_empty_pattern)
next
  assume "snd (binaryPatternTab input)"
  then show "fst (binaryPatternTab input) \<noteq> []"
    by (simp add: binaryPatternTab_def Let_def)
qed

text \<open>The one-entry pattern \<^verbatim>\<open>DE\<close> and the empty pattern over the one-byte range \<^verbatim>\<open>DE\<close>.\<close>

theorem searchBinaryPattern_index_in_bounds_witness:
  "fst (searchBinaryPattern newTask [0xDE] 0 [\<lparr>mask_p = 0xFF, value_p = 0xDE\<rparr>]) \<noteq> Inl OutOfBounds
   \<and> (\<exists>results. fst (searchBinaryPattern newTask [0xDE] 0 [\<lparr>mask_p = 0xFF, value_p = 0xDE\<rparr>]) = Inr results)
   \<and> fst (searchBinaryPattern newTask [0xDE] 0 []) = Inl OutOfBounds
   \<and> snd (binaryPatternTab ''DE'')
   \<and> fst (binaryPatternTab ''DE'') \<noteq> []"
proof -
  have ne: "[\<lparr>mask_p = 0xFF, value_p = 0xDE\<rparr>] \<noteq> []" "[0xDE :: u8] \<noteq> []"
    by simp_all
  have run: "interruptAt newTask = None" "\<not> shouldInterrupt newTask"
    by (simp_all add: newTask_def shouldInterrupt_def)
  have valid: "snd (binaryPatternTab ''DE'')"
    by code_simp
  show ?thesis
    using ne run valid
      searchBinaryPattern_index_in_bounds
        [of "[\<lparr>mask_p = 0xFF, value_p = 0xDE\<rparr>]" newTask "[0xDE]" 0 "''DE''"]
    by blast
qed

subsection \<open>What a successful parse guarantees\<close>

lemma pow2_pred_less: "(2 ^ n - 1 < (a :: nat)) = (2 ^ n \<le> a)"
proof -
  have "0 < (2 :: nat) ^ n" by simp
  then show ?thesis by linarith
qed

lemma parseUnsigned_iff:
  "parseUnsigned w s = (True, x, k) \<longleftrightarrow>
     (\<exists>v. stoull s = Some (v, length s) \<and> x = UVal v \<and> v < 2 ^ (8 * w) \<and> k = w)"
  by (auto simp: parseUnsigned_def pow2_pred_less simp del: One_nat_def split: option.splits)

lemma parseSigned_iff:
  "parseSigned w s = (True, x, k) \<longleftrightarrow>
     (\<exists>v. stoll s = Some (v, length s) \<and> x = IVal v \<and> - (2 ^ (8 * w - 1)) \<le> v \<and> v < 2 ^ (8 * w - 1) \<and> k = w)"
  by (auto simp: parseSigned_def split: option.splits)

lemma parseFloat_iff:
  "parseFloat fl s = (True, x, k) \<longleftrightarrow>
     (\<exists>d. stod fl s = Some (d, length s) \<and> x = FVal (to_float fl d) \<and> \<not> float_out_of_range fl (to_float fl d) \<and> k = 4)"
  by (auto simp: parseFloat_def Let_def split: option.splits)

lemma parseDouble_iff:
  "parseDouble fl s = (True, x, k) \<longleftrightarrow>
     (\<exists>d. stod fl s = Some (d, length s) \<and> x = DVal d \<and> \<not> double_out_of_range fl d \<and> k = 8)"
  by (auto simp: parseDouble_def split: option.splits)

lemma parseNumericValueInput_iff:
  "parseNumericValueInput fl input ty = (True, x, w) \<longleftrightarrow>
     converted fl ty input = Some (x, length input) \<and> fitsType fl ty x \<and> w = typeSize ty"
  by (cases ty; cases x)
     (auto simp: parseUnsigned_iff parseSigned_iff parseFloat_iff parseDouble_iff)

lemma digitChar_facts:
  assumes "d < 10"
  shows "digitValue (of_char (digitChar d)) = Some d"
    and "\<not> isspace (of_char (digitChar d))"
    and "digitChar d \<noteq> CHR ''-''" and "digitChar d \<noteq> CHR ''+''"
    and "(digitChar d = CHR ''0'') = (d = 0)"
proof -
  have "d \<in> {0, 1, 2, 3, 4, 5, 6, 7, 8, 9}"
    using assms by auto
  then show "digitValue (of_char (digitChar d)) = Some d"
    and "\<not> isspace (of_char (digitChar d))"
    and "digitChar d \<noteq> CHR ''-''" and "digitChar d \<noteq> CHR ''+''"
    and "(digitChar d = CHR ''0'') = (d = 0)"
    by (auto simp: digitChar_def digitValue_def isdigit_def isspace_def)
qed

lemma readDigits_digit:
  "d < 10 \<Longrightarrow> readDigits 10 (digitChar d # rest) acc k = readDigits 10 rest (acc * 10 + d) (Suc k)"
  by (simp add: digitChar_facts)

lemma readDigits_decimal:
  "readDigits 10 (decimal n @ rest) acc k =
     readDigits 10 rest (acc * 10 ^ length (decimal n) + n) (k + length (decimal n))"
proof (induction n arbitrary: rest acc k rule: decimal.induct)
  case (1 n)
  show ?case
  proof (cases "n < 10")
    case True
    then show ?thesis
      by (subst (1 2 3) decimal.simps) (simp add: digitChar_facts)
  next
    case False
    have m: "n mod 10 < 10"
      by simp
    have n: "n div 10 * 10 + n mod 10 = n"
      by simp
    have "readDigits 10 (decimal n @ rest) acc k =
        readDigits 10 (decimal (n div 10) @ (digitChar (n mod 10) # rest)) acc k"
      using False by (subst decimal.simps) simp
    also have "\<dots> = readDigits 10 (digitChar (n mod 10) # rest)
        (acc * 10 ^ length (decimal (n div 10)) + n div 10) (k + length (decimal (n div 10)))"
      using "1.IH" [OF False] .
    also have "\<dots> = readDigits 10 rest
        ((acc * 10 ^ length (decimal (n div 10)) + n div 10) * 10 + n mod 10)
        (Suc (k + length (decimal (n div 10))))"
      using readDigits_digit [OF m] .
    also have "(acc * 10 ^ length (decimal (n div 10)) + n div 10) * 10 + n mod 10 =
        acc * 10 ^ Suc (length (decimal (n div 10))) + n"
      using n by (simp add: algebra_simps)
    also have "Suc (length (decimal (n div 10))) = length (decimal n)"
      using False by (subst (2) decimal.simps) simp
    also have "Suc (k + length (decimal (n div 10))) = k + length (decimal n)"
      using False by (subst (2) decimal.simps) simp
    finally show ?thesis .
  qed
qed

lemma decimal_head:
  "\<exists>(d :: nat) cs. decimal n = digitChar d # cs \<and> d < 10 \<and> (d = 0 \<longrightarrow> n = 0)"
proof (induction n rule: decimal.induct)
  case (1 n)
  show ?case
  proof (cases "n < 10")
    case True
    then have "decimal n = digitChar n # [] \<and> n < 10 \<and> (n = 0 \<longrightarrow> n = 0)"
      by (subst decimal.simps) simp
    then show ?thesis
      by blast
  next
    case False
    from "1.IH" [OF False] obtain d :: nat and cs where
      "decimal (n div 10) = digitChar d # cs" "d < 10" "d = 0 \<longrightarrow> n div 10 = 0"
      by blast
    then show ?thesis
      using False by (subst decimal.simps) auto
  qed
qed

lemma detectBase_decimal:
  assumes "c \<noteq> CHR ''0''"
  shows "detectBase (c # cs) = (10, c # cs, 0)"
proof (cases cs)
  case Nil
  then show ?thesis using assms by simp
next
  case (Cons x xs)
  then show ?thesis using assms by (cases xs) simp_all
qed

lemma strto_head:
  assumes "d < 10" and "0 < d"
  shows "strto (digitChar d # cs) =
     (case readDigits 10 (digitChar d # cs) 0 0 of
        (v, k) \<Rightarrow> if k = 0 then None else Some (False, v, k))"
proof -
  have nz: "digitChar d \<noteq> CHR ''0''"
    using assms digitChar_facts(5) [of d] by simp
  show ?thesis
    unfolding strto_def Let_def
    by (simp add: digitChar_facts(2-4) [OF assms(1)] detectBase_decimal [OF nz] split: prod.split
        del: readDigits.simps)
qed

lemma strto_minus_head:
  assumes "d < 10" and "0 < d"
  shows "strto (CHR ''-'' # digitChar d # cs) =
     (case readDigits 10 (digitChar d # cs) 0 0 of
        (v, k) \<Rightarrow> if k = 0 then None else Some (True, v, Suc k))"
proof -
  have nz: "digitChar d \<noteq> CHR ''0''"
    using assms digitChar_facts(5) [of d] by simp
  show ?thesis
    unfolding strto_def Let_def
    by (simp add: isspace_def detectBase_decimal [OF nz] split: prod.split del: readDigits.simps)
qed

lemma decimal_zero: "decimal 0 = ''0''"
  by (subst decimal.simps) (simp add: digitChar_def)

lemma readDigits_whole: "readDigits 10 (decimal n) 0 0 = (n, length (decimal n))"
  using readDigits_decimal [of n "[]" 0 0] by simp

lemma decimal_length: "0 < length (decimal n)"
  using decimal_head [of n] by auto

lemma strto_decimal: "strto (decimal n) = Some (False, n, length (decimal n))"
proof (cases "n = 0")
  case True
  then show ?thesis
    by (simp add: decimal_zero strto_def isspace_def digitValue_def isdigit_def)
next
  case False
  then obtain d cs where dc: "decimal n = digitChar d # cs" "d < 10" "0 < d"
    using decimal_head [of n] by auto
  have "strto (decimal n) =
      (case readDigits 10 (decimal n) 0 0 of (v, k) \<Rightarrow> if k = 0 then None else Some (False, v, k))"
    unfolding dc(1) using dc(2,3) by (rule strto_head)
  then show ?thesis
    using decimal_length [of n] by (simp add: readDigits_whole)
qed

lemma strto_minus_decimal:
  "strto (CHR ''-'' # decimal n) = Some (True, n, Suc (length (decimal n)))"
proof (cases "n = 0")
  case True
  then show ?thesis
    by (simp add: decimal_zero strto_def isspace_def digitValue_def isdigit_def)
next
  case False
  then obtain d cs where dc: "decimal n = digitChar d # cs" "d < 10" "0 < d"
    using decimal_head [of n] by auto
  have "strto (CHR ''-'' # decimal n) =
      (case readDigits 10 (decimal n) 0 0 of (v, k) \<Rightarrow> if k = 0 then None else Some (True, v, Suc k))"
    unfolding dc(1) using dc(2,3) by (rule strto_minus_head)
  then show ?thesis
    using decimal_length [of n] by (simp add: readDigits_whole)
qed

lemma strto_decimal_garbage:
  assumes "0 < n" and "\<not> isdigit (of_char c)"
  shows "strto (decimal n @ c # rest) = Some (False, n, length (decimal n))"
proof -
  obtain d cs where dc: "decimal n = digitChar d # cs" "d < 10" "0 < d"
    using assms(1) decimal_head [of n] by auto
  have stop: "readDigits 10 (c # rest) acc k = (acc, k)" for acc k
    using assms(2) by (auto simp: digitValue_def isdigit_def islower_def isupper_def)
  have "readDigits 10 (decimal n @ c # rest) 0 0 =
      readDigits 10 (c # rest) (0 * 10 ^ length (decimal n) + n) (0 + length (decimal n))"
    by (rule readDigits_decimal)
  also have "\<dots> = (0 * 10 ^ length (decimal n) + n, 0 + length (decimal n))"
    by (rule stop)
  finally have rd: "readDigits 10 (decimal n @ c # rest) 0 0 = (n, length (decimal n))"
    by simp
  have "strto (digitChar d # (cs @ c # rest)) =
      (case readDigits 10 (digitChar d # (cs @ c # rest)) 0 0 of
         (v, k) \<Rightarrow> if k = 0 then None else Some (False, v, k))"
    using dc(2,3) by (rule strto_head)
  then have "strto (decimal n @ c # rest) =
      (case readDigits 10 (decimal n @ c # rest) 0 0 of
         (v, k) \<Rightarrow> if k = 0 then None else Some (False, v, k))"
    by (simp only: dc(1) append_Cons)
  then show ?thesis
    using decimal_length [of n] by (simp add: rd)
qed

lemma stoull_decimal:
  "stoull (decimal n) = (if 2 ^ 64 \<le> n then None else Some (n, length (decimal n)))"
  by (simp add: stoull_def strto_decimal)

lemma stoull_minus_decimal:
  "stoull (CHR ''-'' # decimal n) =
     (if 2 ^ 64 \<le> n then None else Some ((2 ^ 64 - n) mod 2 ^ 64, Suc (length (decimal n))))"
  by (simp add: stoull_def strto_minus_decimal)

lemma stoll_decimal:
  "stoll (decimal n) = (if 2 ^ 63 \<le> n then None else Some (int n, length (decimal n)))"
  by (simp add: stoll_def strto_decimal)

lemma stoll_minus_decimal:
  "stoll (CHR ''-'' # decimal n) =
     (if 2 ^ 63 < n then None else Some (- int n, Suc (length (decimal n))))"
  by (simp add: stoll_def strto_minus_decimal)

lemma parse_unsigned_decimal:
  assumes "ty \<in> {U8, U16, U32, U64}"
  shows "parseNumericValueInput fl (decimal n) ty =
     (if n < 2 ^ (8 * typeSize ty) then (True, UVal n, typeSize ty) else (False, UVal 0, 0))"
  using assms by (cases ty) (auto simp: parseUnsigned_def stoull_decimal)

lemma parse_signed_decimal:
  assumes "ty \<in> {I8, I16, I32, I64}"
  shows "parseNumericValueInput fl (decimal n) ty =
     (if n < 2 ^ (8 * typeSize ty - 1) then (True, IVal (int n), typeSize ty) else (False, UVal 0, 0))"
  using assms by (cases ty) (auto simp: parseSigned_def stoll_decimal)

lemma parse_signed_minus_decimal:
  assumes "ty \<in> {I8, I16, I32, I64}"
  shows "parseNumericValueInput fl (CHR ''-'' # decimal n) ty =
     (if n \<le> 2 ^ (8 * typeSize ty - 1) then (True, IVal (- int n), typeSize ty) else (False, UVal 0, 0))"
  using assms by (cases ty) (auto simp: parseSigned_def stoll_minus_decimal)

lemma parse_unsigned_minus_decimal:
  assumes "ty \<in> {U8, U16, U32, U64}" and "0 < n"
  shows "parseNumericValueInput fl (CHR ''-'' # decimal n) ty =
     (if n < 2 ^ 64 \<and> 2 ^ 64 - n < 2 ^ (8 * typeSize ty) then (True, UVal (2 ^ 64 - n), typeSize ty)
      else (False, UVal 0, 0))"
  using assms by (cases ty) (auto simp: parseUnsigned_def stoull_minus_decimal)

lemma parse_decimal_garbage:
  assumes "ty \<in> {U8, U16, U32, U64, I8, I16, I32, I64}" and "0 < n" and "\<not> isdigit (of_char c)"
  shows "parseNumericValueInput fl (decimal n @ c # rest) ty = (False, UVal 0, 0)"
  using assms(1)
  by (cases ty)
     (auto simp: parseUnsigned_def parseSigned_def stoull_def stoll_def
        strto_decimal_garbage [OF assms(2,3)])

text \<open>
  Claim C8, evaluated. A negative text is accepted for an unsigned type: \<^verbatim>\<open>std::stoull\<close>
  converts "-1" to \<open>2^64 - 1\<close>, the range test sees that value, and
  \<^verbatim>\<open>parseNumericValueInput\<close> succeeds for U64 with \<open>18446744073709551615\<close>; for U8 the
  text "-18446744073709551615" succeeds with the value 1. The signed types reject what
  is below their range ("-129" for I8). The rest of the claim holds. A success means
  that the conversion consumed the whole input, that the converted value lies in the
  range of the type, and that the width is the size of the type. For the decimal text
  of every natural number \<open>n\<close>: an unsigned type accepts it exactly when \<open>n < 2^(8 w)\<close>;
  a signed type accepts it exactly when \<open>n < 2^(8 w - 1)\<close> and accepts it with a minus
  sign exactly when \<open>n \<le> 2^(8 w - 1)\<close>; followed by a character that is not a digit it
  is rejected by every integer type; and with a minus sign an unsigned type accepts it
  exactly when \<open>2^64 - n\<close> fits, with that value. "256" fails for U8; "0xFF" succeeds for
  U8 with value 255 and width 1, "010" with value 8; "255x" fails.
\<close>

theorem parseNumericValueInput_negative_unsigned:
  "(parseNumericValueInput fl input ty = (True, x, w) \<longrightarrow>
      converted fl ty input = Some (x, length input) \<and> fitsType fl ty x \<and> w = typeSize ty)
   \<and> (converted fl ty input = Some (x, length input) \<and> fitsType fl ty x \<longrightarrow>
      parseNumericValueInput fl input ty = (True, x, typeSize ty))
   \<and> (ty \<in> {U8, U16, U32, U64} \<longrightarrow>
      parseNumericValueInput fl (decimal n) ty =
        (if n < 2 ^ (8 * typeSize ty) then (True, UVal n, typeSize ty) else (False, UVal 0, 0)))
   \<and> (ty \<in> {I8, I16, I32, I64} \<longrightarrow>
      parseNumericValueInput fl (decimal n) ty =
        (if n < 2 ^ (8 * typeSize ty - 1) then (True, IVal (int n), typeSize ty) else (False, UVal 0, 0))
      \<and> parseNumericValueInput fl (CHR ''-'' # decimal n) ty =
        (if n \<le> 2 ^ (8 * typeSize ty - 1) then (True, IVal (- int n), typeSize ty) else (False, UVal 0, 0)))
   \<and> (ty \<in> {U8, U16, U32, U64, I8, I16, I32, I64} \<and> 0 < n \<and> \<not> isdigit (of_char c) \<longrightarrow>
      parseNumericValueInput fl (decimal n @ c # rest) ty = (False, UVal 0, 0))
   \<and> (ty \<in> {U8, U16, U32, U64} \<and> 0 < n \<longrightarrow>
      parseNumericValueInput fl (CHR ''-'' # decimal n) ty =
        (if n < 2 ^ 64 \<and> 2 ^ 64 - n < 2 ^ (8 * typeSize ty) then (True, UVal (2 ^ 64 - n), typeSize ty)
         else (False, UVal 0, 0)))
   \<and> parseNumericValueInput fl ''-1'' U64 = (True, UVal 18446744073709551615, 8)
   \<and> parseNumericValueInput fl ''-18446744073709551615'' U8 = (True, UVal 1, 1)
   \<and> parseNumericValueInput fl ''-129'' I8 = (False, UVal 0, 0)
   \<and> parseNumericValueInput fl ''256'' U8 = (False, UVal 0, 0)
   \<and> parseNumericValueInput fl ''0xFF'' U8 = (True, UVal 255, 1)
   \<and> parseNumericValueInput fl ''010'' U8 = (True, UVal 8, 1)
   \<and> parseNumericValueInput fl ''255x'' U8 = (False, UVal 0, 0)"
proof -
  note parse_defs = parseUnsigned_def parseSigned_def stoull_def stoll_def strto_def digitValue_def
    isspace_def isdigit_def islower_def isupper_def isxdigit_def Let_def
  have "parseNumericValueInput fl ''-1'' U64 = (True, UVal 18446744073709551615, 8)"
    by (simp add: parse_defs)
  moreover have "parseNumericValueInput fl ''-18446744073709551615'' U8 = (True, UVal 1, 1)"
    by (simp add: parse_defs)
  moreover have "parseNumericValueInput fl ''-129'' I8 = (False, UVal 0, 0)"
    by (simp add: parse_defs)
  moreover have "parseNumericValueInput fl ''256'' U8 = (False, UVal 0, 0)"
    by (simp add: parse_defs)
  moreover have "parseNumericValueInput fl ''0xFF'' U8 = (True, UVal 255, 1)"
    by (simp add: parse_defs)
  moreover have "parseNumericValueInput fl ''010'' U8 = (True, UVal 8, 1)"
    by (simp add: parse_defs)
  moreover have "parseNumericValueInput fl ''255x'' U8 = (False, UVal 0, 0)"
    by (simp add: parse_defs)
  moreover have "parseNumericValueInput fl input ty = (True, x, w) \<longrightarrow>
      converted fl ty input = Some (x, length input) \<and> fitsType fl ty x \<and> w = typeSize ty"
    using parseNumericValueInput_iff [of fl input ty x w] by blast
  moreover have "converted fl ty input = Some (x, length input) \<and> fitsType fl ty x \<longrightarrow>
      parseNumericValueInput fl input ty = (True, x, typeSize ty)"
    using parseNumericValueInput_iff [of fl input ty x "typeSize ty"] by blast
  moreover have "ty \<in> {U8, U16, U32, U64} \<longrightarrow>
      parseNumericValueInput fl (decimal n) ty =
        (if n < 2 ^ (8 * typeSize ty) then (True, UVal n, typeSize ty) else (False, UVal 0, 0))"
    using parse_unsigned_decimal [of ty fl n] by blast
  moreover have "ty \<in> {I8, I16, I32, I64} \<longrightarrow>
      parseNumericValueInput fl (decimal n) ty =
        (if n < 2 ^ (8 * typeSize ty - 1) then (True, IVal (int n), typeSize ty) else (False, UVal 0, 0))
      \<and> parseNumericValueInput fl (CHR ''-'' # decimal n) ty =
        (if n \<le> 2 ^ (8 * typeSize ty - 1) then (True, IVal (- int n), typeSize ty) else (False, UVal 0, 0))"
    using parse_signed_decimal [of ty fl n] parse_signed_minus_decimal [of ty fl n] by blast
  moreover have "ty \<in> {U8, U16, U32, U64, I8, I16, I32, I64} \<and> 0 < n \<and> \<not> isdigit (of_char c) \<longrightarrow>
      parseNumericValueInput fl (decimal n @ c # rest) ty = (False, UVal 0, 0)"
    using parse_decimal_garbage [of ty n c fl rest] by blast
  moreover have "ty \<in> {U8, U16, U32, U64} \<and> 0 < n \<longrightarrow>
      parseNumericValueInput fl (CHR ''-'' # decimal n) ty =
        (if n < 2 ^ 64 \<and> 2 ^ 64 - n < 2 ^ (8 * typeSize ty) then (True, UVal (2 ^ 64 - n), typeSize ty)
         else (False, UVal 0, 0))"
    using parse_unsigned_minus_decimal [of ty n fl] by blast
  ultimately show ?thesis
    by blast
qed

text \<open>
  The texts "0xFF" and "255" for U8, "255x" with its trailing character, "128" and "-128"
  for I8, and "-255" for U8 and "-1" for U64.
\<close>

theorem parseNumericValueInput_negative_unsigned_witness:
  "parseNumericValueInput noFloats ''0xFF'' U8 = (True, UVal 255, 1)
   \<and> converted noFloats U8 ''0xFF'' = Some (UVal 255, length ''0xFF'')
   \<and> fitsType noFloats U8 (UVal 255)
   \<and> (1 :: nat) = typeSize U8
   \<and> U8 \<in> {U8, U16, U32, U64}
   \<and> decimal 255 = ''255''
   \<and> parseNumericValueInput noFloats (decimal 255) U8 = (True, UVal 255, 1)
   \<and> U8 \<in> {U8, U16, U32, U64, I8, I16, I32, I64} \<and> (0 :: nat) < 255 \<and> \<not> isdigit (of_char CHR ''x'')
   \<and> parseNumericValueInput noFloats (decimal 255 @ CHR ''x'' # []) U8 = (False, UVal 0, 0)
   \<and> I8 \<in> {I8, I16, I32, I64}
   \<and> parseNumericValueInput noFloats (decimal 128) I8 = (False, UVal 0, 0)
   \<and> parseNumericValueInput noFloats (CHR ''-'' # decimal 128) I8 = (True, IVal (- 128), 1)
   \<and> parseNumericValueInput noFloats (CHR ''-'' # decimal 255) U8 = (False, UVal 0, 0)
   \<and> U64 \<in> {U8, U16, U32, U64} \<and> (0 :: nat) < 1
   \<and> parseNumericValueInput noFloats (CHR ''-'' # decimal 1) U64 = (True, UVal 18446744073709551615, 8)"
proof -
  note inst1 = parseNumericValueInput_negative_unsigned
    [where fl = noFloats and input = "''0xFF''" and ty = U8 and x = "UVal 255" and w = 1 and n = 255
       and c = "CHR ''x''" and rest = "[]"]
  note inst2 = parseNumericValueInput_negative_unsigned
    [where fl = noFloats and input = "''0xFF''" and ty = I8 and x = "UVal 255" and w = 1 and n = 128
       and c = "CHR ''x''" and rest = "[]"]
  note inst3 = parseNumericValueInput_negative_unsigned
    [where fl = noFloats and input = "''0xFF''" and ty = U64 and x = "UVal 255" and w = 1 and n = 1
       and c = "CHR ''x''" and rest = "[]"]
  have d: "decimal 255 = ''255''"
    by (simp add: decimal.simps digitChar_def)
  have x: "\<not> isdigit (of_char CHR ''x'')"
    by (simp add: isdigit_def)
  have p: "parseNumericValueInput noFloats ''0xFF'' U8 = (True, UVal 255, 1)"
    using inst1 by blast
  have c1: "converted noFloats U8 ''0xFF'' = Some (UVal 255, length ''0xFF'')
      \<and> fitsType noFloats U8 (UVal 255) \<and> (1 :: nat) = typeSize U8"
    using inst1 p by blast
  have u: "parseNumericValueInput noFloats (decimal 255) U8 = (True, UVal 255, 1)"
    "parseNumericValueInput noFloats (CHR ''-'' # decimal 255) U8 = (False, UVal 0, 0)"
    using inst1 [THEN conjunct2, THEN conjunct2, THEN conjunct1]
      inst1 [THEN conjunct2, THEN conjunct2, THEN conjunct2, THEN conjunct2, THEN conjunct2, THEN conjunct1]
    by simp_all
  have g: "parseNumericValueInput noFloats (decimal 255 @ CHR ''x'' # []) U8 = (False, UVal 0, 0)"
    using inst1 [THEN conjunct2, THEN conjunct2, THEN conjunct2, THEN conjunct2, THEN conjunct1] x
    by simp
  have s: "parseNumericValueInput noFloats (decimal 128) I8 = (False, UVal 0, 0)"
    "parseNumericValueInput noFloats (CHR ''-'' # decimal 128) I8 = (True, IVal (- 128), 1)"
    using inst2 [THEN conjunct2, THEN conjunct2, THEN conjunct2, THEN conjunct1]
    by simp_all
  have b: "parseNumericValueInput noFloats (CHR ''-'' # decimal 1) U64 = (True, UVal 18446744073709551615, 8)"
    using inst3 [THEN conjunct2, THEN conjunct2, THEN conjunct2, THEN conjunct2, THEN conjunct2, THEN conjunct1]
    by simp
  show ?thesis
    using d x p c1 u g s b by simp
qed

subsection \<open>The first window of a value search\<close>

lemma searchValue_loop_addresses:
  "fst (searchValue_loop fl t settings min_v max_v sizeBytes bs window address validBytes results) = Inr res \<Longrightarrow>
   1 \<le> sizeBytes \<Longrightarrow> validBytes \<le> sizeBytes \<Longrightarrow> start + validBytes \<le> address \<Longrightarrow>
   \<forall>occ \<in> set results. start < getStartAddress (region occ) \<Longrightarrow>
   \<forall>occ \<in> set res. start < getStartAddress (region occ)"
proof (induction bs arbitrary: t window address validBytes results)
  case Nil
  then show ?case by simp
next
  case (Cons b bs)
  show ?case
  proof (cases "validBytes = sizeBytes")
    case True
    show ?thesis
    proof (cases "task_update t")
      case None
      then show ?thesis
        using Cons.prems(1) True by (simp add: Let_def)
    next
      case (Some t')
      let ?masked = "((window * 256) mod 2 ^ 64 OR unat b) AND bitmask (sizeBytes * 8)"
      let ?results' = "(if windowInRange fl min_v max_v sizeBytes (endian_v settings) ?masked
                     then results @ [\<lparr>region = Region (address - (sizeBytes - 1)) sizeBytes,
                                       decodeType = valueDecodeType (type_v settings),
                                       endian = endian_v settings\<rparr>]
                     else results)"
      have step: "fst (searchValue_loop fl t' settings min_v max_v sizeBytes bs ?masked (address + 1) validBytes ?results') = Inr res"
        using Cons.prems(1) True Some by (simp add: Let_def)
      have "start < address - (sizeBytes - 1)"
        using Cons.prems(2,4) True by simp
      then have inv: "\<forall>occ \<in> set ?results'. start < getStartAddress (region occ)"
        using Cons.prems(5) by simp
      have "start + validBytes \<le> address + 1"
        using Cons.prems(4) by simp
      from Cons.IH [OF step Cons.prems(2) Cons.prems(3) this inv] show ?thesis .
    qed
  next
    case False
    let ?shifted = "(window * 256) mod 2 ^ 64 OR unat b"
    have step: "fst (searchValue_loop fl t settings min_v max_v sizeBytes bs ?shifted (address + 1) (validBytes + 1) results) = Inr res"
      using Cons.prems(1) False by (simp add: Let_def)
    have "validBytes + 1 \<le> sizeBytes" "start + (validBytes + 1) \<le> address + 1"
      using Cons.prems(3,4) False by simp_all
    from Cons.IH [OF step Cons.prems(2) this Cons.prems(5)] show ?thesis .
  qed
qed

lemma typeSize_pos: "1 \<le> typeSize ty"
  by (cases ty) simp_all

lemma searchValue_never_at_start:
  assumes "fst (searchValue fl t H start settings) = Inr results"
  shows "\<forall>occ \<in> set results. start < getStartAddress (region occ)"
proof (cases "parseNumericValueInput fl (inputMin settings) (type_v settings)")
  case mn: (fields validMin min_v sizeMin)
  show ?thesis
  proof (cases "parseNumericValueInput fl (inputMax settings) (type_v settings)")
    case mx: (fields validMax max_v sizeMax)
    show ?thesis
    proof (cases "\<not> validMin \<or> \<not> validMax \<or> sizeMin \<noteq> sizeMax")
      case True
      then show ?thesis
        using assms mn mx by (simp add: searchValue_def)
    next
      case False
      then have "validMin" by simp
      then have "sizeMin = typeSize (type_v settings)"
        using mn parseNumericValueInput_iff [of fl "inputMin settings" "type_v settings" min_v sizeMin]
        by simp
      then have pos: "1 \<le> sizeMin"
        using typeSize_pos [of "type_v settings"] by simp
      have "fst (searchValue_loop fl t settings min_v max_v sizeMin H 0 start 0 []) = Inr results"
        using assms mn mx False by (simp add: searchValue_def)
      from searchValue_loop_addresses [OF this pos, of start] show ?thesis
        by simp
    qed
  qed
qed

text \<open>
  Claim C2, evaluated. The window at the first offset of the range is never tested:
  \<open>validBytes\<close> reaches the width only after the first window has been read, and the
  test is made from the next byte on. So no search returns an occurrence at the start
  address of its range. Over the one byte \<^verbatim>\<open>0A\<close> with type U8 and the range 5 to 20
  nothing is found, and over \<^verbatim>\<open>0A 0A\<close> only the address 1. The example of the claim
  (\<^verbatim>\<open>00 0A 14\<close>: addresses 1 and 2) holds. A signed window is not sign-extended: the
  byte \<^verbatim>\<open>FF\<close> is not found for the type I8 and the range -1 to -1.
\<close>

theorem searchValue_first_window_skipped:
  "(fst (searchValue fl t H start settings) = Inr results \<longrightarrow>
      (\<forall>occ \<in> set results. start < getStartAddress (region occ)))
   \<and> fst (searchValue fl newTask [0x0A] 0
          \<lparr>inputMin = ''5'', inputMax = ''20'', type_v = U8, endian_v = Little\<rparr>) = Inr []
   \<and> fst (searchValue fl newTask [0x0A, 0x0A] 0
          \<lparr>inputMin = ''5'', inputMax = ''20'', type_v = U8, endian_v = Little\<rparr>) =
     Inr [\<lparr>region = Region 1 1, decodeType = DecodeUnsigned, endian = Little\<rparr>]
   \<and> fst (searchValue fl newTask [0x00, 0x0A, 0x14] 0
          \<lparr>inputMin = ''5'', inputMax = ''20'', type_v = U8, endian_v = Little\<rparr>) =
     Inr [\<lparr>region = Region 1 1, decodeType = DecodeUnsigned, endian = Little\<rparr>,
          \<lparr>region = Region 2 1, decodeType = DecodeUnsigned, endian = Little\<rparr>]
   \<and> fst (searchValue fl newTask [0x00, 0xFF] 0
          \<lparr>inputMin = ''-1'', inputMax = ''-1'', type_v = I8, endian_v = Little\<rparr>) = Inr []"
proof -
  note value_defs = searchValue_def windowInRange_def changeEndianess_def byteSwap_def bitmask_def
     native_def task_update_def shouldInterrupt_def newTask_def
     parseUnsigned_def parseSigned_def stoull_def stoll_def strto_def digitValue_def
     isspace_def isdigit_def islower_def isupper_def isxdigit_def Let_def
  have "fst (searchValue fl newTask [0x0A] 0
          \<lparr>inputMin = ''5'', inputMax = ''20'', type_v = U8, endian_v = Little\<rparr>) = Inr []"
    by (simp add: value_defs)
  moreover have "fst (searchValue fl newTask [0x0A, 0x0A] 0
          \<lparr>inputMin = ''5'', inputMax = ''20'', type_v = U8, endian_v = Little\<rparr>) =
     Inr [\<lparr>region = Region 1 1, decodeType = DecodeUnsigned, endian = Little\<rparr>]"
    by (simp add: value_defs)
  moreover have "fst (searchValue fl newTask [0x00, 0x0A, 0x14] 0
          \<lparr>inputMin = ''5'', inputMax = ''20'', type_v = U8, endian_v = Little\<rparr>) =
     Inr [\<lparr>region = Region 1 1, decodeType = DecodeUnsigned, endian = Little\<rparr>,
          \<lparr>region = Region 2 1, decodeType = DecodeUnsigned, endian = Little\<rparr>]"
    by (simp add: value_defs)
  moreover have "fst (searchValue fl newTask [0x00, 0xFF] 0
          \<lparr>inputMin = ''-1'', inputMax = ''-1'', type_v = I8, endian_v = Little\<rparr>) = Inr []"
    by (simp add: value_defs)
  ultimately show ?thesis
    using searchValue_never_at_start [of fl t H start settings results] by blast
qed

text \<open>
  The range \<^verbatim>\<open>0A 0A\<close> at address 0: the search returns the occurrence at address 1 and
  none at address 0, where the same byte stands.
\<close>

theorem searchValue_first_window_skipped_witness:
  "fst (searchValue noFloats newTask [0x0A, 0x0A] 0
          \<lparr>inputMin = ''5'', inputMax = ''20'', type_v = U8, endian_v = Little\<rparr>) =
     Inr [\<lparr>region = Region 1 1, decodeType = DecodeUnsigned, endian = Little\<rparr>]
   \<and> 0 < getStartAddress (region \<lparr>region = Region 1 1, decodeType = DecodeUnsigned, endian = Little\<rparr>)"
proof -
  let ?S = "\<lparr>inputMin = ''5'', inputMax = ''20'', type_v = U8, endian_v = Little\<rparr>"
  let ?o = "\<lparr>region = Region 1 1, decodeType = DecodeUnsigned, endian = Little\<rparr>"
  note inst = searchValue_first_window_skipped [of noFloats newTask "[0x0A, 0x0A]" 0 ?S "[?o]"]
  have r: "fst (searchValue noFloats newTask [0x0A, 0x0A] 0 ?S) = Inr [?o]"
    using inst by blast
  then have "\<forall>occ \<in> set [?o]. 0 < getStartAddress (region occ)"
    using inst by blast
  then show ?thesis
    using r by simp
qed

subsection \<open>Runs of valid bytes in the string search\<close>

lemma searchStrings_loop_runs:
  "interruptAt t = None \<Longrightarrow>
   \<exists>res. searchStrings_loop t settings dt en e bs c s r = (Inr res, t\<lparr>calls := calls t + length bs\<rparr>)"
proof (induction bs arbitrary: t c s r)
  case Nil
  then show ?case by simp
next
  case (Cons b bs)
  let ?t' = "t\<lparr>calls := Suc (calls t)\<rparr>"
  have upd: "task_update t = Some ?t'"
    using Cons.prems by (rule task_update_running)
  have run': "interruptAt ?t' = None"
    using Cons.prems by simp
  have eq: "?t'\<lparr>calls := calls ?t' + length bs\<rparr> = t\<lparr>calls := calls t + length (b # bs)\<rparr>"
    by simp
  show ?case
    using Cons.IH [OF run'] unfolding eq
    by (simp add: upd Let_def)
qed

lemma searchStrings_single_runs:
  "interruptAt t = None \<Longrightarrow>
   \<exists>res. searchStrings_single t H start settings = (Inr res, t\<lparr>calls := calls t + length H\<rparr>)"
  unfolding searchStrings_single_def
  by (simp add: searchStrings_loop_runs split: prod.splits)

lemma searchStrings_runs:
  assumes "interruptAt t = None" and "type settings \<in> {ASCII, UTF16LE, UTF16BE}"
  shows "\<exists>res. searchStrings t H start settings = (Inr res, t\<lparr>calls := calls t + length H\<rparr>)"
  using assms searchStrings_single_runs [of t H start settings]
  by (auto simp: searchStrings_def)

lemma classValid_nonzero: "classValid settings b \<Longrightarrow> b \<noteq> 0x00"
  by (auto simp: classValid_def islower_def isupper_def isdigit_def isspace_def ispunct_def)

lemma size_t_nat: "0 \<le> i \<Longrightarrow> i < 2 ^ 64 \<Longrightarrow> size_t i = nat i"
  by (simp add: size_t_def)

lemma searchStrings_loop_ascii:
  assumes "type settings = ASCII" and "1 \<le> minLength settings" and "minLength settings < 2 ^ 64"
    and "interruptAt t = None"
    and "s + c + length bs = e" and "bs = [] \<longrightarrow> c = 0"
  shows "fst (searchStrings_loop t settings DecodeASCII native e bs c s res) =
     Inr (res @ map asciiOccurrence (filter (runEmitted settings) (runsFrom (classValid settings) (s + c) c bs)))"
  using assms(4-6)
proof (induction bs arbitrary: t c s res)
  case Nil
  then show ?case by simp
next
  case (Cons b bs)
  let ?t' = "t\<lparr>calls := Suc (calls t)\<rparr>"
  have upd: "task_update t = Some ?t'"
    using Cons.prems(1) by (rule task_update_running)
  have run': "interruptAt ?t' = None"
    using Cons.prems(1) by simp
  have m: "size_t (minLength settings) = nat (minLength settings)" and mpos: "0 < nat (minLength settings)"
    using assms(2,3) by (simp_all add: size_t_nat)
  have vc: "validChar settings k b = classValid settings b" for k
    using assms(1) by (simp add: validChar_def)
  show ?case
  proof (cases "classValid settings b")
    case True
    then have nz: "b \<noteq> 0x00"
      by (rule classValid_nonzero)
    show ?thesis
    proof (cases "bs = []")
      case True
      then have e: "e = s + (c + 1)"
        using Cons.prems(2) by simp
      show ?thesis
        using \<open>classValid settings b\<close> True e nz
        by (simp add: upd vc Let_def m runEmitted_def asciiOccurrence_def)
    next
      case False
      then have "0 < length bs"
        by simp
      then have ne: "s + (c + 1) \<noteq> e"
        using Cons.prems(2) by auto
      have "s + (c + 1) + length bs = e" "bs = [] \<longrightarrow> c + 1 = 0"
        using Cons.prems(2) False by simp_all
      from Cons.IH [OF run' this, of res] show ?thesis
        using \<open>classValid settings b\<close> ne
        by (simp add: upd vc Let_def)
    qed
  next
    case False
    have "(s + c + 1) + 0 + length bs = e" "bs = [] \<longrightarrow> (0 :: nat) = 0"
      using Cons.prems(2) by simp_all
    note IH = Cons.IH [OF run' this]
    show ?thesis
    proof (cases "0 < c")
      case True
      show ?thesis
        using False True IH
        by (simp add: upd vc Let_def m runEmitted_def asciiOccurrence_def)
    next
      case c0: False
      then show ?thesis
        using False IH mpos
        by (simp add: upd vc Let_def m)
    qed
  qed
qed

lemma searchStrings_ascii:
  assumes "type settings = ASCII" and "1 \<le> minLength settings" and "minLength settings < 2 ^ 64"
    and "interruptAt t = None"
  shows "fst (searchStrings t H start settings) =
     Inr (map asciiOccurrence (filter (runEmitted settings) (runsFrom (classValid settings) start 0 H)))"
proof (cases "H = []")
  case True
  then show ?thesis
    using assms(1) by (simp add: searchStrings_def searchStrings_single_def)
next
  case False
  then have "start + 0 + length H = readerEnd H start" "H = [] \<longrightarrow> (0 :: nat) = 0"
    by (simp_all add: readerEnd_def)
  from searchStrings_loop_ascii [OF assms this, of "[]"] show ?thesis
    using assms(1) by (simp add: searchStrings_def searchStrings_single_def)
qed

lemma run_not_inside:
  assumes "maximalRun V H i n" and "p < i" and "i \<le> q" and "\<forall>j. p \<le> j \<and> j < q \<longrightarrow> V (H ! j)"
  shows False
proof -
  have "p \<le> i - 1 \<and> i - 1 < q" using assms(2,3) by auto
  then have "V (H ! (i - 1))" using assms(4) by blast
  moreover have "0 < i" using assms(2) by simp
  ultimately show False using assms(1) by (simp add: maximalRun_def)
qed

lemma run_length_unique:
  assumes "maximalRun V H p n" and "p < q" and "q \<le> length H"
    and "\<forall>j. p \<le> j \<and> j < q \<longrightarrow> V (H ! j)" and "q < length H \<longrightarrow> \<not> V (H ! q)"
  shows "n = q - p"
proof (rule ccontr)
  assume "n \<noteq> q - p"
  then consider "p + n < q" | "q < p + n" using assms(2) by linarith
  then show False
  proof cases
    case 1
    then have "V (H ! (p + n))" using assms(4) by simp
    moreover have "p + n < length H" using 1 assms(3) by simp
    ultimately show False using assms(1) by (simp add: maximalRun_def)
  next
    case 2
    then have "q - p < n" using assms(2) by simp
    then have "V (H ! (p + (q - p)))" using assms(1) by (simp add: maximalRun_def)
    then have "V (H ! q)" using assms(2) by simp
    moreover have "q < length H" using 2 assms(1) by (simp add: maximalRun_def)
    ultimately show False using assms(5) by simp
  qed
qed

lemma run_exists:
  assumes "p < q" and "q \<le> length H" and "\<forall>j. p \<le> j \<and> j < q \<longrightarrow> V (H ! j)"
    and "0 < p \<longrightarrow> \<not> V (H ! (p - 1))" and "q < length H \<longrightarrow> \<not> V (H ! q)"
  shows "maximalRun V H p (q - p)"
  using assms by (simp add: maximalRun_def)

lemma runsFrom_maximal:
  assumes "c \<le> length pre"
    and "\<forall>j. length pre - c \<le> j \<and> j < length pre \<longrightarrow> V ((pre @ bs) ! j)"
    and "0 < length pre - c \<longrightarrow> \<not> V ((pre @ bs) ! (length pre - c - 1))"
  shows "x \<in> set (runsFrom V (a0 + length pre) c bs) \<longleftrightarrow>
     (\<exists>i n. x = (a0 + i, n, followingByte (pre @ bs) i n) \<and> maximalRun V (pre @ bs) i n
        \<and> length pre - c \<le> i)"
  using assms
proof (induction bs arbitrary: pre c)
  case Nil
  let ?L = "length pre"
  let ?p = "?L - c"
  have valid: "\<forall>j. ?p \<le> j \<and> j < ?L \<longrightarrow> V (pre ! j)"
    using Nil.prems(2) by simp
  have before: "0 < ?p \<longrightarrow> \<not> V (pre ! (?p - 1))"
    using Nil.prems(3) by simp
  show ?case
  proof (cases "0 < c")
    case True
    then have pq: "?p < ?L" using Nil.prems(1) by simp
    have ex: "maximalRun V pre ?p c"
      using run_exists [OF pq _ valid before] Nil.prems(1) by simp
    have fb: "followingByte pre ?p c = None"
      using Nil.prems(1) by (simp add: followingByte_def)
    have uniq: "i = ?p \<and> n = c" if "maximalRun V pre i n" "?p \<le> i" for i n
    proof -
      have "i = ?p"
      proof (rule ccontr)
        assume "i \<noteq> ?p"
        then have "?p < i" using that(2) by simp
        moreover have "i \<le> ?L" using that(1) by (simp add: maximalRun_def)
        ultimately show False using run_not_inside [OF that(1) _ _ valid] by blast
      qed
      moreover have "n = ?L - ?p"
        using run_length_unique [OF _ pq _ valid] that(1) \<open>i = ?p\<close> by simp
      ultimately show ?thesis using Nil.prems(1) by simp
    qed
    have addr: "a0 + ?L - c = a0 + ?p" using Nil.prems(1) by simp
    show ?thesis
    proof
      assume "x \<in> set (runsFrom V (a0 + ?L) c [])"
      then have "x = (a0 + ?p, c, None)" using True addr by simp
      then show "\<exists>i n. x = (a0 + i, n, followingByte (pre @ []) i n) \<and> maximalRun V (pre @ []) i n \<and> ?p \<le> i"
        using ex fb by auto
    next
      assume "\<exists>i n. x = (a0 + i, n, followingByte (pre @ []) i n) \<and> maximalRun V (pre @ []) i n \<and> ?p \<le> i"
      then obtain i n where x: "x = (a0 + i, n, followingByte pre i n)" and r: "maximalRun V pre i n" "?p \<le> i"
        by auto
      from uniq [OF r] x fb show "x \<in> set (runsFrom V (a0 + ?L) c [])"
        using True addr by simp
    qed
  next
    case False
    then have "\<not> (maximalRun V pre i n \<and> ?L - c \<le> i)" for i n
      by (auto simp: maximalRun_def)
    then show ?thesis using False by simp
  qed
next
  case (Cons b bs)
  let ?L = "length pre"
  let ?p = "?L - c"
  let ?H = "pre @ b # bs"
  have H: "(pre @ [b]) @ bs = ?H" by simp
  have HL: "?H ! ?L = b" by simp
  show ?case
  proof (cases "V b")
    case True
    have 1: "Suc c \<le> length (pre @ [b])" using Cons.prems(1) by simp
    have p': "length (pre @ [b]) - Suc c = ?p" by simp
    have 2: "\<forall>j. length (pre @ [b]) - Suc c \<le> j \<and> j < length (pre @ [b]) \<longrightarrow> V (((pre @ [b]) @ bs) ! j)"
    proof (intro allI impI)
      fix j assume j: "length (pre @ [b]) - Suc c \<le> j \<and> j < length (pre @ [b])"
      show "V (((pre @ [b]) @ bs) ! j)"
      proof (cases "j < ?L")
        case True
        then show ?thesis using Cons.prems(2) j by simp
      next
        case False
        then have "j = ?L" using j by simp
        then show ?thesis using \<open>V b\<close> by simp
      qed
    qed
    have 3: "0 < length (pre @ [b]) - Suc c \<longrightarrow> \<not> V (((pre @ [b]) @ bs) ! (length (pre @ [b]) - Suc c - 1))"
      using Cons.prems(3) by simp
    from Cons.IH [OF 1 2 3] show ?thesis
      using True by simp
  next
    case False
    have 1: "0 \<le> length (pre @ [b])" by simp
    have 2: "\<forall>j. length (pre @ [b]) - 0 \<le> j \<and> j < length (pre @ [b]) \<longrightarrow> V (((pre @ [b]) @ bs) ! j)"
      by auto
    have 3: "0 < length (pre @ [b]) - 0 \<longrightarrow> \<not> V (((pre @ [b]) @ bs) ! (length (pre @ [b]) - 0 - 1))"
      using False by simp
    have IH: "x \<in> set (runsFrom V (Suc (a0 + ?L)) 0 bs) \<longleftrightarrow>
       (\<exists>i n. x = (a0 + i, n, followingByte ?H i n) \<and> maximalRun V ?H i n \<and> Suc ?L \<le> i)"
      using Cons.IH [OF 1 2 3] by simp
    have valid: "\<forall>j. ?p \<le> j \<and> j < ?L \<longrightarrow> V (?H ! j)"
      using Cons.prems(2) by simp
    have before: "0 < ?p \<longrightarrow> \<not> V (?H ! (?p - 1))"
      using Cons.prems(3) by simp
    have after: "?L < length ?H \<longrightarrow> \<not> V (?H ! ?L)"
      using False by simp
    have nostart: "Suc ?L \<le> i \<or> (i = ?p \<and> n = c \<and> 0 < c)" if "maximalRun V ?H i n" "?p \<le> i" for i n
    proof (cases "Suc ?L \<le> i")
      case True
      then show ?thesis by simp
    next
      case nl: False
      then have iL: "i \<le> ?L" by simp
      have ip: "i = ?p"
      proof (rule ccontr)
        assume "i \<noteq> ?p"
        then have "?p < i" using that(2) by simp
        then show False using run_not_inside [OF that(1) _ iL valid] by blast
      qed
      have "0 < c"
      proof (rule ccontr)
        assume "\<not> 0 < c"
        then have "i = ?L" using ip by simp
        moreover have "V (?H ! (i + 0))" using that(1) unfolding maximalRun_def by blast
        ultimately show False using False by simp
      qed
      then have pq: "?p < ?L" using Cons.prems(1) by simp
      have "n = ?L - ?p"
        using run_length_unique [OF _ pq _ valid after] that(1) ip by simp
      then show ?thesis using ip \<open>0 < c\<close> Cons.prems(1) by simp
    qed
    have addr: "a0 + ?L - c = a0 + ?p" using Cons.prems(1) by simp
    have fb: "followingByte ?H ?p c = Some b"
      using Cons.prems(1) by (simp add: followingByte_def)
    show ?thesis
    proof
      assume "x \<in> set (runsFrom V (a0 + ?L) c (b # bs))"
      then consider "0 < c" "x = (a0 + ?p, c, Some b)" | "x \<in> set (runsFrom V (Suc (a0 + ?L)) 0 bs)"
        using False addr by (auto split: if_splits)
      then show "\<exists>i n. x = (a0 + i, n, followingByte ?H i n) \<and> maximalRun V ?H i n \<and> ?p \<le> i"
      proof cases
        case 1
        then have pq: "?p < ?L" using Cons.prems(1) by simp
        have "maximalRun V ?H ?p (?L - ?p)"
          using run_exists [OF pq _ valid before after] by simp
        then have "maximalRun V ?H ?p c" using Cons.prems(1) by simp
        then show ?thesis using 1 fb by auto
      next
        case 2
        then obtain i n where "x = (a0 + i, n, followingByte ?H i n)" "maximalRun V ?H i n" "Suc ?L \<le> i"
          using IH by blast
        moreover have "?p \<le> i" using calculation(3) by simp
        ultimately show ?thesis by blast
      qed
    next
      assume "\<exists>i n. x = (a0 + i, n, followingByte ?H i n) \<and> maximalRun V ?H i n \<and> ?p \<le> i"
      then obtain i n where x: "x = (a0 + i, n, followingByte ?H i n)" and r: "maximalRun V ?H i n" "?p \<le> i"
        by blast
      from nostart [OF r] show "x \<in> set (runsFrom V (a0 + ?L) c (b # bs))"
      proof
        assume "Suc ?L \<le> i"
        then have "x \<in> set (runsFrom V (Suc (a0 + ?L)) 0 bs)"
          using IH x r(1) by blast
        then show ?thesis using False by simp
      next
        assume "i = ?p \<and> n = c \<and> 0 < c"
        then show ?thesis using x fb False addr by simp
      qed
    qed
  qed
qed

lemma runsFrom_lower: "x \<in> set (runsFrom V a c bs) \<Longrightarrow> a - c \<le> fst x"
proof (induction bs arbitrary: a c)
  case Nil
  then show ?case by (auto split: if_splits)
next
  case (Cons b bs)
  show ?case
  proof (cases "V b")
    case True
    then have "x \<in> set (runsFrom V (Suc a) (Suc c) bs)" using Cons.prems by simp
    from Cons.IH [OF this] show ?thesis by simp
  next
    case False
    then consider "x = (a - c, c, Some b)" | "x \<in> set (runsFrom V (Suc a) 0 bs)"
      using Cons.prems by (auto split: if_splits)
    then show ?thesis
    proof cases
      case 1
      then show ?thesis by simp
    next
      case 2
      from Cons.IH [OF this] show ?thesis by simp
    qed
  qed
qed

lemma runsFrom_sorted: "sorted_wrt (\<lambda>x y. fst x < fst y) (runsFrom V a c bs)"
proof (induction bs arbitrary: a c)
  case Nil
  then show ?case by simp
next
  case (Cons b bs)
  show ?case
  proof (cases "V b")
    case True
    then show ?thesis using Cons.IH by simp
  next
    case False
    have "a - c < fst y" if "y \<in> set (runsFrom V (Suc a) 0 bs)" for y
      using runsFrom_lower [OF that] by simp
    then show ?thesis
      using False Cons.IH [of "Suc a" 0] by (auto simp: sorted_wrt_append)
  qed
qed

lemma runsFrom_whole:
  "x \<in> set (runsFrom V start 0 H) \<longleftrightarrow>
     (\<exists>i n. x = (start + i, n, followingByte H i n) \<and> maximalRun V H i n)"
  using runsFrom_maximal [of 0 "[]" V H x start] by simp

lemma searchStrings_ascii_runs:
  assumes "type settings = ASCII" and "1 \<le> minLength settings" and "minLength settings < 2 ^ 31"
    and "interruptAt t = None"
  shows "\<exists>results. fst (searchStrings t H start settings) = Inr results
     \<and> (\<forall>occ. occ \<in> set results \<longleftrightarrow>
          (\<exists>i n. occ = \<lparr>region = Region (start + i) n, decodeType = DecodeASCII, endian = native\<rparr>
             \<and> maximalRun (classValid settings) H i n \<and> nat (minLength settings) \<le> n
             \<and> (if nullTermination settings then followingByte H i n = Some 0x00 else True)))
     \<and> sorted_wrt (\<lambda>x y. getStartAddress (region x) < getStartAddress (region y)) results"
proof -
  let ?runs = "filter (runEmitted settings) (runsFrom (classValid settings) start 0 H)"
  have lt: "minLength settings < 2 ^ 64"
    using assms(3) by simp
  have res: "fst (searchStrings t H start settings) = Inr (map asciiOccurrence ?runs)"
    using searchStrings_ascii [OF assms(1,2) lt assms(4)] .
  have mem: "occ \<in> set (map asciiOccurrence ?runs) \<longleftrightarrow>
      (\<exists>i n. occ = \<lparr>region = Region (start + i) n, decodeType = DecodeASCII, endian = native\<rparr>
         \<and> maximalRun (classValid settings) H i n \<and> nat (minLength settings) \<le> n
         \<and> (if nullTermination settings then followingByte H i n = Some 0x00 else True))" for occ
  proof
    assume "occ \<in> set (map asciiOccurrence ?runs)"
    then obtain x where x: "x \<in> set (runsFrom (classValid settings) start 0 H)" "runEmitted settings x"
      "occ = asciiOccurrence x"
      by auto
    from x(1) obtain i n where "x = (start + i, n, followingByte H i n)" "maximalRun (classValid settings) H i n"
      using runsFrom_whole by blast
    then show "\<exists>i n. occ = \<lparr>region = Region (start + i) n, decodeType = DecodeASCII, endian = native\<rparr>
         \<and> maximalRun (classValid settings) H i n \<and> nat (minLength settings) \<le> n
         \<and> (if nullTermination settings then followingByte H i n = Some 0x00 else True)"
      using x(2,3) by (auto simp: runEmitted_def asciiOccurrence_def)
  next
    assume "\<exists>i n. occ = \<lparr>region = Region (start + i) n, decodeType = DecodeASCII, endian = native\<rparr>
         \<and> maximalRun (classValid settings) H i n \<and> nat (minLength settings) \<le> n
         \<and> (if nullTermination settings then followingByte H i n = Some 0x00 else True)"
    then obtain i n where o: "occ = \<lparr>region = Region (start + i) n, decodeType = DecodeASCII, endian = native\<rparr>"
      and r: "maximalRun (classValid settings) H i n" and m: "nat (minLength settings) \<le> n"
      and z: "if nullTermination settings then followingByte H i n = Some 0x00 else True"
      by blast
    let ?x = "(start + i, n, followingByte H i n)"
    have "?x \<in> set (runsFrom (classValid settings) start 0 H)"
      using r runsFrom_whole by blast
    moreover have "runEmitted settings ?x"
      using m z by (simp add: runEmitted_def)
    moreover have "occ = asciiOccurrence ?x"
      using o by (simp add: asciiOccurrence_def)
    ultimately show "occ \<in> set (map asciiOccurrence ?runs)"
      by auto
  qed
  have "sorted_wrt (\<lambda>x y. fst x < fst y) ?runs"
    using runsFrom_sorted by (rule sorted_wrt_filter)
  then have srt: "sorted_wrt (\<lambda>x y. getStartAddress (region x) < getStartAddress (region y))
      (map asciiOccurrence ?runs)"
    by (simp add: sorted_wrt_map asciiOccurrence_def)
  show ?thesis
    using res mem srt by blast
qed

text \<open>
  Claim C7, evaluated. In the ASCII mode the claim holds for every minimum length from
  1 on: a search that is not interrupted returns, in ascending order and once each,
  exactly the maximal runs of valid bytes that are long enough and, with null
  termination, are followed by a zero byte. In the UTF-16LE mode with null termination
  the two bytes \<^verbatim>\<open>61 00\<close> at the end of the range are emitted although no byte follows
  them: at the end of the range the test \<^verbatim>\<open>byte != 0x00\<close> reads the last byte of the
  run itself. In the same mode the byte that ends a run is consumed, so the run
  \<^verbatim>\<open>62 00 63 00\<close> after the byte \<^verbatim>\<open>61\<close> is not emitted for the minimum length 4. The
  ASCII examples of the claim hold: "ab" and "cd" for the minimum length 2, nothing for
  the minimum length 3.
\<close>

theorem searchStrings_null_termination_at_range_end:
  "(type settings = ASCII \<and> 1 \<le> minLength settings \<and> minLength settings < 2 ^ 31
      \<and> interruptAt t = None \<longrightarrow>
      (\<exists>results. fst (searchStrings t H start settings) = Inr results
         \<and> (\<forall>occ. occ \<in> set results \<longleftrightarrow>
              (\<exists>i n. occ = \<lparr>region = Region (start + i) n, decodeType = DecodeASCII, endian = native\<rparr>
                 \<and> maximalRun (classValid settings) H i n \<and> nat (minLength settings) \<le> n
                 \<and> (if nullTermination settings then followingByte H i n = Some 0x00 else True)))
         \<and> sorted_wrt (\<lambda>x y. getStartAddress (region x) < getStartAddress (region y)) results))
   \<and> fst (searchStrings newTask [0x61, 0x00] 0 (exampleStrings\<lparr>type := UTF16LE, nullTermination := True\<rparr>)) =
     Inr [\<lparr>region = Region 0 2, decodeType = DecodeUTF16, endian = Little\<rparr>]
   \<and> fst (searchStrings newTask [0x61, 0x62, 0x00, 0x63, 0x00] 0 (exampleStrings\<lparr>type := UTF16LE, minLength := 4\<rparr>)) =
     Inr []
   \<and> fst (searchStrings newTask [0x61, 0x62, 0x01, 0x63, 0x64] 0 exampleStrings) =
     Inr [\<lparr>region = Region 0 2, decodeType = DecodeASCII, endian = Little\<rparr>,
          \<lparr>region = Region 3 2, decodeType = DecodeASCII, endian = Little\<rparr>]
   \<and> fst (searchStrings newTask [0x61, 0x62, 0x01, 0x63, 0x64] 0 (exampleStrings\<lparr>minLength := 3\<rparr>)) = Inr []"
proof -
  note strings_defs = exampleStrings_def searchStrings_def searchStrings_single_def
     task_update_def shouldInterrupt_def newTask_def Let_def validChar_def classValid_def
     islower_def isupper_def isdigit_def isspace_def ispunct_def size_t_def readerEnd_def native_def
  have "fst (searchStrings newTask [0x61, 0x00] 0 (exampleStrings\<lparr>type := UTF16LE, nullTermination := True\<rparr>)) =
     Inr [\<lparr>region = Region 0 2, decodeType = DecodeUTF16, endian = Little\<rparr>]"
    by (simp add: strings_defs)
  moreover have "fst (searchStrings newTask [0x61, 0x62, 0x00, 0x63, 0x00] 0 (exampleStrings\<lparr>type := UTF16LE, minLength := 4\<rparr>)) =
     Inr []"
    by (simp add: strings_defs)
  moreover have "fst (searchStrings newTask [0x61, 0x62, 0x01, 0x63, 0x64] 0 exampleStrings) =
     Inr [\<lparr>region = Region 0 2, decodeType = DecodeASCII, endian = Little\<rparr>,
          \<lparr>region = Region 3 2, decodeType = DecodeASCII, endian = Little\<rparr>]"
    by (simp add: strings_defs)
  moreover have "fst (searchStrings newTask [0x61, 0x62, 0x01, 0x63, 0x64] 0 (exampleStrings\<lparr>minLength := 3\<rparr>)) = Inr []"
    by (simp add: strings_defs)
  ultimately show ?thesis
    using searchStrings_ascii_runs [of settings t H start] by blast
qed

text \<open>The ASCII settings of the examples over the bytes of \<^verbatim>\<open>ab\x01cd\<close>.\<close>

theorem searchStrings_null_termination_at_range_end_witness:
  "type exampleStrings = ASCII \<and> 1 \<le> minLength exampleStrings \<and> minLength exampleStrings < 2 ^ 31
   \<and> interruptAt newTask = None
   \<and> (\<exists>results. fst (searchStrings newTask [0x61, 0x62, 0x01, 0x63, 0x64] 0 exampleStrings) = Inr results
         \<and> (\<forall>occ. occ \<in> set results \<longleftrightarrow>
              (\<exists>i n. occ = \<lparr>region = Region (0 + i) n, decodeType = DecodeASCII, endian = native\<rparr>
                 \<and> maximalRun (classValid exampleStrings) [0x61, 0x62, 0x01, 0x63, 0x64] i n
                 \<and> nat (minLength exampleStrings) \<le> n
                 \<and> (if nullTermination exampleStrings
                     then followingByte [0x61, 0x62, 0x01, 0x63, 0x64] i n = Some 0x00 else True)))
         \<and> sorted_wrt (\<lambda>x y. getStartAddress (region x) < getStartAddress (region y)) results)"
proof -
  have h: "type exampleStrings = ASCII \<and> 1 \<le> minLength exampleStrings
      \<and> minLength exampleStrings < 2 ^ 31 \<and> interruptAt newTask = None"
    by (simp add: exampleStrings_def newTask_def)
  show ?thesis
    using h searchStrings_null_termination_at_range_end
      [of exampleStrings newTask "[0x61, 0x62, 0x01, 0x63, 0x64]" 0]
    by blast
qed

subsection \<open>An invalid regular expression\<close>

lemma searchStrings_loop_no_regex_error:
  "fst (searchStrings_loop t settings dt en e bs c s r) \<noteq> Inl RegexError"
  by (induction bs arbitrary: t c s r) (auto simp: Let_def split: option.splits)

lemma searchStrings_no_regex_error:
  "searchStrings t H start settings \<noteq> (Inl RegexError, t')"
proof -
  have single: "searchStrings_single t H start st \<noteq> (Inl RegexError, t')" for t st t'
    using searchStrings_loop_no_regex_error
    unfolding searchStrings_single_def
    by (auto split: prod.split dest: arg_cong [where f = fst])
  show ?thesis
    using single
    by (auto simp: searchStrings_def split: prod.splits sum.splits)
qed

lemma searchRegex_loop_no_regex_error:
  "fst (searchRegex_loop lib regex full t H start occs result) \<noteq> Inl RegexError"
  by (induction occs arbitrary: t result) (auto simp: Let_def split: option.splits)

lemma searchRegex_error_only_invalid:
  assumes "fst (searchRegex lib t H start settings) = Inl RegexError"
  shows "regex_compile lib (pattern_rx settings) = None"
proof (cases "regex_compile lib (pattern_rx settings)")
  case None
  then show ?thesis .
next
  case (Some regex)
  let ?st = "\<lparr>minLength = minLength_rx settings, nullTermination = nullTermination_rx settings,
              type = type_rx settings, lowerCaseLetters = True, upperCaseLetters = True,
              numbers = True, underscores = True, symbols = True, spaces = True, lineFeeds = True\<rparr>"
  obtain out t1 where s: "searchStrings t H start ?st = (out, t1)"
    by (cases "searchStrings t H start ?st")
  show ?thesis
  proof (cases out)
    case (Inl f)
    then have "f \<noteq> RegexError"
      using s searchStrings_no_regex_error [of t H start ?st t1] by auto
    then show ?thesis
      using assms s Inl by (simp add: searchRegex_def)
  next
    case (Inr occs)
    then show ?thesis
      using assms s Some searchRegex_loop_no_regex_error [of lib regex "fullMatch settings" t1 H start occs "[]"]
      by (simp add: searchRegex_def)
  qed
qed

text \<open>
  Claim C5. The regex tab declares the settings valid exactly when the pattern compiles
  and is not empty. With a pattern that does not compile the search button starts no
  task: the view and the task handle are as they were, so no byte is scanned and no poll
  is made under an invalid regex. With valid settings the button runs the search, and
  a search in the regex mode never ends with the error of the regex constructor: the
  failure never crosses the task boundary.
\<close>

theorem invalid_regex_stopped_by_settings_gate:
  "(regexTab lib rx \<longleftrightarrow> (\<exists>r. regex_compile lib (pattern_rx rx) = Some r) \<and> pattern_rx rx \<noteq> [])
   \<and> (regex_compile (regexLib libs) (pattern_rx (regex_s settings)) = None \<longrightarrow>
        searchButton (regexTab (regexLib libs) (regex_s settings)) libs view settings p provider selection t
          = (view, t))
   \<and> (mode_s settings = ModeRegex \<and> regexTab (regexLib libs) (regex_s settings) \<longrightarrow>
        searchButton (regexTab (regexLib libs) (regex_s settings)) libs view settings p provider selection t
          = runSearch libs view settings p provider selection t
        \<and> fst (dispatch libs t provider (searchRegion settings provider selection) settings) \<noteq> Inl RegexError)"
proof (intro conjI impI)
  show "regexTab lib rx \<longleftrightarrow> (\<exists>r. regex_compile lib (pattern_rx rx) = Some r) \<and> pattern_rx rx \<noteq> []"
    by (auto simp: regexTab_def Let_def split: if_splits option.splits)
next
  assume "regex_compile (regexLib libs) (pattern_rx (regex_s settings)) = None"
  then show "searchButton (regexTab (regexLib libs) (regex_s settings)) libs view settings p provider selection t
      = (view, t)"
    by (simp add: searchButton_def regexTab_def)
next
  assume "mode_s settings = ModeRegex \<and> regexTab (regexLib libs) (regex_s settings)"
  then show "searchButton (regexTab (regexLib libs) (regex_s settings)) libs view settings p provider selection t
      = runSearch libs view settings p provider selection t"
    by (simp add: searchButton_def)
next
  assume a: "mode_s settings = ModeRegex \<and> regexTab (regexLib libs) (regex_s settings)"
  then have "regex_compile (regexLib libs) (pattern_rx (regex_s settings)) \<noteq> None"
    by (auto simp: regexTab_def Let_def split: if_splits option.splits)
  then show "fst (dispatch libs t provider (searchRegion settings provider selection) settings) \<noteq> Inl RegexError"
    using a searchRegex_error_only_invalid
      [of "regexLib libs" t "regionBytes provider (searchRegion settings provider selection)"
          "getStartAddress (searchRegion settings provider selection)" "regex_s settings"]
    by (auto simp: dispatch_def Let_def)
qed

text \<open>
  The pattern "a" compiles in \<open>literalRegex\<close> and "(" does not: the tab accepts the first
  and the search runs without a regex error; the button does nothing for the second.
\<close>

theorem invalid_regex_stopped_by_settings_gate_witness:
  "regexTab literalRegex (exampleRegex\<lparr>pattern_rx := ''a''\<rparr>)
   \<and> (\<exists>r. regex_compile literalRegex (pattern_rx (exampleRegex\<lparr>pattern_rx := ''a''\<rparr>)) = Some r)
   \<and> pattern_rx (exampleRegex\<lparr>pattern_rx := ''a''\<rparr>) \<noteq> []
   \<and> regex_compile (regexLib exampleLibs) (pattern_rx (regex_s exampleSettings)) = None
   \<and> searchButton (regexTab (regexLib exampleLibs) (regex_s exampleSettings)) exampleLibs exampleView
        exampleSettings (0 :: nat) exampleProvider None newTask = (exampleView, newTask)
   \<and> mode_s validRegexSettings = ModeRegex
   \<and> regexTab (regexLib exampleLibs) (regex_s validRegexSettings)
   \<and> searchButton (regexTab (regexLib exampleLibs) (regex_s validRegexSettings)) exampleLibs exampleView
        validRegexSettings (0 :: nat) exampleProvider None newTask
       = runSearch exampleLibs exampleView validRegexSettings (0 :: nat) exampleProvider None newTask
   \<and> fst (dispatch exampleLibs newTask exampleProvider
            (searchRegion validRegexSettings exampleProvider None) validRegexSettings) \<noteq> Inl RegexError"
proof -
  have a: "regexTab literalRegex (exampleRegex\<lparr>pattern_rx := ''a''\<rparr>)"
    by (simp add: regexTab_def literalRegex_def exampleRegex_def)
  have b: "regex_compile (regexLib exampleLibs) (pattern_rx (regex_s exampleSettings)) = None"
    by (simp add: exampleLibs_def exampleSettings_def exampleRegex_def literalRegex_def)
  have c: "mode_s validRegexSettings = ModeRegex"
    "regexTab (regexLib exampleLibs) (regex_s validRegexSettings)"
    by (simp_all add: validRegexSettings_def exampleSettings_def exampleLibs_def regexTab_def
        literalRegex_def exampleRegex_def)
  note inst1 = invalid_regex_stopped_by_settings_gate
    [of literalRegex "exampleRegex\<lparr>pattern_rx := ''a''\<rparr>" exampleLibs exampleSettings exampleView
        "0 :: nat" exampleProvider None newTask]
  note inst2 = invalid_regex_stopped_by_settings_gate
    [of literalRegex "exampleRegex\<lparr>pattern_rx := ''a''\<rparr>" exampleLibs validRegexSettings exampleView
        "0 :: nat" exampleProvider None newTask]
  show ?thesis
    using a b c inst1 inst2 by blast
qed

subsection \<open>A cancelled search\<close>

lemma coop_return: "cooperative (\<lambda>t. (x, t)) t"
  by (simp add: cooperative_def)

lemma coop_if: "cooperative (\<lambda>t. if b then F t else G t) t = (if b then cooperative F t else cooperative G t)"
  by simp

lemma coop_poll:
  assumes eq: "\<And>t. F t = (case task_update t of None \<Rightarrow> (Inl TaskInterruptor, t) | Some t' \<Rightarrow> K t')"
    and K: "\<And>t'. task_update t = Some t' \<Longrightarrow> cooperative K t'"
  shows "cooperative F t"
proof (cases "interruptAt t")
  case (Some n)
  then show ?thesis by (simp add: cooperative_def)
next
  case None
  let ?t1 = "t\<lparr>calls := Suc (calls t)\<rparr>"
  have upd: "task_update t = Some ?t1"
    using None by (rule task_update_running)
  have Ft: "F t = K ?t1"
    by (simp add: eq upd)
  have c: "cooperative K ?t1"
    using K [OF upd] .
  have run1: "interruptAt ?t1 = None"
    using None by simp
  have k1: "interruptAt (snd (K ?t1)) = None" and k2: "Suc (calls t) \<le> calls (snd (K ?t1))"
    and k3: "\<And>n. K (?t1\<lparr>interruptAt := Some n\<rparr>) =
              (if calls ?t1 < calls (snd (K ?t1)) \<and> n < calls (snd (K ?t1))
               then (Inl TaskInterruptor, ?t1\<lparr>calls := max n (calls ?t1), interruptAt := Some n\<rparr>)
               else (fst (K ?t1), (snd (K ?t1))\<lparr>interruptAt := Some n\<rparr>))"
    using c run1 by (simp_all add: cooperative_def)
  have main: "F (t\<lparr>interruptAt := Some n\<rparr>) =
              (if calls t < calls (snd (F t)) \<and> n < calls (snd (F t))
               then (Inl TaskInterruptor, t\<lparr>calls := max n (calls t), interruptAt := Some n\<rparr>)
               else (fst (F t), (snd (F t))\<lparr>interruptAt := Some n\<rparr>))" for n
  proof (cases "n \<le> calls t")
    case True
    then have "task_update (t\<lparr>interruptAt := Some n\<rparr>) = None"
      by (simp add: task_update_def shouldInterrupt_def)
    then have "F (t\<lparr>interruptAt := Some n\<rparr>) = (Inl TaskInterruptor, t\<lparr>interruptAt := Some n\<rparr>)"
      by (simp add: eq)
    moreover have "max n (calls t) = calls t"
      using True by simp
    ultimately show ?thesis
      using True k2 by (simp add: Ft)
  next
    case False
    then have "task_update (t\<lparr>interruptAt := Some n\<rparr>) = Some (?t1\<lparr>interruptAt := Some n\<rparr>)"
      by (simp add: task_update_def shouldInterrupt_def)
    then have "F (t\<lparr>interruptAt := Some n\<rparr>) = K (?t1\<lparr>interruptAt := Some n\<rparr>)"
      by (simp add: eq)
    moreover have "max n (Suc (calls t)) = n" "max n (calls t) = n"
      using False by simp_all
    ultimately show ?thesis
      using False k2 k3 [of n] by (auto simp: Ft)
  qed
  show ?thesis
    unfolding cooperative_def using k1 k2 main by (simp add: Ft)
qed

lemma coop_bind:
  assumes eq: "\<And>t. B t = (case F t of (Inl f, t1) \<Rightarrow> (Inl f, t1) | (Inr x, t1) \<Rightarrow> G x t1)"
    and F: "cooperative F t" and G: "\<And>x t1. cooperative (G x) t1"
  shows "cooperative B t"
proof (cases "interruptAt t")
  case (Some n)
  then show ?thesis by (simp add: cooperative_def)
next
  case None
  obtain out t0 where Ft: "F t = (out, t0)"
    by (cases "F t")
  have f1: "interruptAt t0 = None" and f2: "calls t \<le> calls t0"
    and f3: "\<And>n. F (t\<lparr>interruptAt := Some n\<rparr>) =
              (if calls t < calls t0 \<and> n < calls t0
               then (Inl TaskInterruptor, t\<lparr>calls := max n (calls t), interruptAt := Some n\<rparr>)
               else (out, t0\<lparr>interruptAt := Some n\<rparr>))"
    using F None by (simp_all add: cooperative_def Ft)
  show ?thesis
  proof (cases out)
    case (Inl f)
    then have Bt: "B t = (Inl f, t0)"
      by (simp add: eq Ft)
    have Bi: "B (t\<lparr>interruptAt := Some n\<rparr>) =
              (if calls t < calls t0 \<and> n < calls t0
               then (Inl TaskInterruptor, t\<lparr>calls := max n (calls t), interruptAt := Some n\<rparr>)
               else (Inl f, t0\<lparr>interruptAt := Some n\<rparr>))" for n
      by (simp add: eq f3 Inl)
    show ?thesis
      unfolding cooperative_def using f1 f2 by (simp add: Bt Bi)
  next
    case (Inr x)
    then have Bt: "B t = G x t0"
      by (simp add: eq Ft)
    have g: "cooperative (G x) t0"
      using G .
    have g1: "interruptAt (snd (G x t0)) = None" and g2: "calls t0 \<le> calls (snd (G x t0))"
      and g3: "\<And>n. G x (t0\<lparr>interruptAt := Some n\<rparr>) =
              (if calls t0 < calls (snd (G x t0)) \<and> n < calls (snd (G x t0))
               then (Inl TaskInterruptor, t0\<lparr>calls := max n (calls t0), interruptAt := Some n\<rparr>)
               else (fst (G x t0), (snd (G x t0))\<lparr>interruptAt := Some n\<rparr>))"
      using g f1 by (simp_all add: cooperative_def)
    have t0: "t0 = t\<lparr>calls := calls t0\<rparr>"
      using f1 None by simp
    have main: "B (t\<lparr>interruptAt := Some n\<rparr>) =
              (if calls t < calls (snd (B t)) \<and> n < calls (snd (B t))
               then (Inl TaskInterruptor, t\<lparr>calls := max n (calls t), interruptAt := Some n\<rparr>)
               else (fst (B t), (snd (B t))\<lparr>interruptAt := Some n\<rparr>))" for n
    proof (cases "calls t < calls t0 \<and> n < calls t0")
      case True
      then have "B (t\<lparr>interruptAt := Some n\<rparr>) =
          (Inl TaskInterruptor, t\<lparr>calls := max n (calls t), interruptAt := Some n\<rparr>)"
        using f3 [of n] by (simp add: eq [of "t\<lparr>interruptAt := Some n\<rparr>"])
      then show ?thesis
        using True g2 by (simp add: Bt)
    next
      case False
      then have Fi: "F (t\<lparr>interruptAt := Some n\<rparr>) = (Inr x, t0\<lparr>interruptAt := Some n\<rparr>)"
        using f3 [of n] Inr by simp
      have mx: "max n (calls t0) = max n (calls t)"
        using False f2 by auto
      have tt: "t0\<lparr>calls := max n (calls t0), interruptAt := Some n\<rparr> =
          t\<lparr>calls := max n (calls t), interruptAt := Some n\<rparr>"
        by (subst t0) (simp add: mx)
      have cond: "(calls t0 < calls (snd (G x t0)) \<and> n < calls (snd (G x t0))) =
          (calls t < calls (snd (G x t0)) \<and> n < calls (snd (G x t0)))"
        using False f2 g2 by auto
      have "B (t\<lparr>interruptAt := Some n\<rparr>) = G x (t0\<lparr>interruptAt := Some n\<rparr>)"
        by (simp add: eq [of "t\<lparr>interruptAt := Some n\<rparr>"] Fi)
      then show ?thesis
        using g3 [of n] by (simp add: Bt tt cond)
    qed
    show ?thesis
      unfolding cooperative_def using g1 g2 f2 main by (simp add: Bt)
  qed
qed

lemma searchStrings_loop_coop:
  "cooperative (\<lambda>t. searchStrings_loop t settings dt en e bs c s r) t"
proof (induction bs arbitrary: c s r t)
  case Nil
  show ?case by (simp add: coop_return)
next
  case (Cons b bs)
  let ?valid = "validChar settings c b"
  let ?counted = "if ?valid then c + 1 else c"
  let ?K = "\<lambda>t'. if \<not> ?valid \<or> s + ?counted = e
      then searchStrings_loop t' settings dt en e bs 0 (s + ?counted + 1)
             (if size_t (minLength settings) \<le> ?counted \<and> \<not> (nullTermination settings \<and> b \<noteq> 0x00)
              then r @ [\<lparr>region = Region s ?counted, decodeType = dt, endian = en\<rparr>] else r)
      else searchStrings_loop t' settings dt en e bs ?counted s r"
  show ?case
  proof (rule coop_poll [where K = ?K])
    fix t
    show "searchStrings_loop t settings dt en e (b # bs) c s r =
        (case task_update t of None \<Rightarrow> (Inl TaskInterruptor, t) | Some t' \<Rightarrow> ?K t')"
      by (cases "task_update t"; simp only: searchStrings_loop.simps Let_def option.case)
  next
    fix t'
    show "cooperative ?K t'"
      by (simp add: coop_if Cons.IH)
  qed
qed

lemma searchRegex_loop_coop:
  "cooperative (\<lambda>t. searchRegex_loop lib regex full t H start occs result) t"
proof (induction occs arbitrary: result t)
  case Nil
  show ?case by (simp add: coop_return)
next
  case (Cons occurrence occs)
  let ?string = "readString H start (region occurrence)"
  let ?K = "\<lambda>t'. searchRegex_loop lib regex full t' H start occs
               (if full then (if regex_match lib ?string regex then result @ [occurrence] else result)
                else (if regex_search lib ?string regex then result @ [occurrence] else result))"
  show ?case
  proof (rule coop_poll [where K = ?K])
    fix t
    show "searchRegex_loop lib regex full t H start (occurrence # occs) result =
        (case task_update t of None \<Rightarrow> (Inl TaskInterruptor, t) | Some t' \<Rightarrow> ?K t')"
      by (simp add: Let_def split: option.split)
  next
    fix t'
    show "cooperative ?K t'"
      by (rule Cons.IH)
  qed
qed

lemma searchValue_loop_coop:
  "cooperative (\<lambda>t. searchValue_loop fl t settings min_v max_v sizeBytes bs window address validBytes results) t"
proof (induction bs arbitrary: window address validBytes results t)
  case Nil
  show ?case by (simp add: coop_return)
next
  case (Cons b bs)
  let ?shifted = "(window * 256) mod 2 ^ 64 OR unat b"
  let ?masked = "?shifted AND bitmask (sizeBytes * 8)"
  let ?K = "\<lambda>t'. searchValue_loop fl t' settings min_v max_v sizeBytes bs ?masked (address + 1) validBytes
                     (if windowInRange fl min_v max_v sizeBytes (endian_v settings) ?masked
                      then results @ [\<lparr>region = Region (address - (sizeBytes - 1)) sizeBytes,
                                       decodeType = valueDecodeType (type_v settings),
                                       endian = endian_v settings\<rparr>]
                      else results)"
  show ?case
  proof (cases "validBytes = sizeBytes")
    case True
    show ?thesis
    proof (rule coop_poll [where K = ?K])
      fix t
      show "searchValue_loop fl t settings min_v max_v sizeBytes (b # bs) window address validBytes results =
          (case task_update t of None \<Rightarrow> (Inl TaskInterruptor, t) | Some t' \<Rightarrow> ?K t')"
        using True by (simp add: Let_def split: option.split)
    next
      fix t'
      show "cooperative ?K t'"
        by (rule Cons.IH)
    qed
  next
    case False
    then show ?thesis
      using Cons.IH [of ?shifted "address + 1" "validBytes + 1" results] by (simp add: Let_def)
  qed
qed

lemma searchSequence_loop_coop:
  "cooperative (\<lambda>t. searchSequence_loop t H start bytes first results) t"
proof (induction t H start bytes first results rule: searchSequence_loop.induct)
  case (1 t H start bytes first results)
  let ?rest = "readerFrom H start first"
  let ?k = "std_search ?rest bytes"
  let ?K = "\<lambda>t'. if ?k = length ?rest then (Inr results, t')
      else searchSequence_loop t' H start bytes (first + ?k + 1)
             (results @ [\<lparr>region = Region (first + ?k) (length bytes), decodeType = DecodeBinary,
                            endian = native\<rparr>])"
  show ?case
  proof (rule coop_poll [where K = ?K])
    fix t
    show "searchSequence_loop t H start bytes first results =
        (case task_update t of None \<Rightarrow> (Inl TaskInterruptor, t) | Some t' \<Rightarrow> ?K t')"
      by (subst searchSequence_loop.simps) (simp add: Let_def split: option.split)
  next
    fix t'
    assume upd: "task_update t = Some t'"
    show "cooperative ?K t'"
    proof (cases "?k = length ?rest")
      case True
      then show ?thesis by (simp add: coop_return)
    next
      case False
      from "1.IH" [OF upd refl refl False refl] show ?thesis
        using False by simp
    qed
  qed
qed

lemma searchBinaryPattern_loop_coop:
  "cooperative (\<lambda>t. searchBinaryPattern_loop t H start pattern it m results) t"
proof (induction t H start pattern it m results rule: searchBinaryPattern_loop.induct)
  case (1 t H start pattern it m results)
  show ?case
  proof (cases "readerFrom H start it")
    case Nil
    have "(\<lambda>t. searchBinaryPattern_loop t H start pattern it m results) = (\<lambda>t. (Inr results, t))"
      using Nil by (subst searchBinaryPattern_loop.simps) simp
    then show ?thesis
      by (simp add: coop_return)
  next
    case (Cons byte rest)
    let ?K = "\<lambda>t'. if length pattern \<le> m then (Inl OutOfBounds, t')
        else if byte AND mask_p (pattern ! m) = value_p (pattern ! m) then
          (if m + 1 = length pattern then
             searchBinaryPattern_loop t' H start pattern (it - (length pattern - 1) + 1) 0
               (results @ [\<lparr>region = Region (it - (length pattern - 1)) (length pattern),
                              decodeType = DecodeBinary, endian = native\<rparr>])
           else searchBinaryPattern_loop t' H start pattern (it + 1) (m + 1) results)
        else searchBinaryPattern_loop t' H start pattern ((if 0 < m then it - m else it) + 1) 0 results"
    show ?thesis
    proof (rule coop_poll [where K = ?K])
      fix t
      show "searchBinaryPattern_loop t H start pattern it m results =
          (case task_update t of None \<Rightarrow> (Inl TaskInterruptor, t) | Some t' \<Rightarrow> ?K t')"
        using Cons by (subst searchBinaryPattern_loop.simps) (simp add: Let_def split: option.split)
    next
      fix t'
      assume upd: "task_update t = Some t'"
      show "cooperative ?K t'"
      proof (cases "length pattern \<le> m")
        case True
        then show ?thesis by (simp add: coop_return)
      next
        case nb: False
        show ?thesis
        proof (cases "byte AND mask_p (pattern ! m) = value_p (pattern ! m)")
          case True
          show ?thesis
          proof (cases "m + 1 = length pattern")
            case full: True
            from "1.IH"(1) [OF Cons upd nb True full refl] show ?thesis
              using nb True full by simp
          next
            case part: False
            from "1.IH"(2) [OF Cons upd nb True part] show ?thesis
              using nb True part by simp
          qed
        next
          case False
          from "1.IH"(3) [OF Cons upd nb False] show ?thesis
            using nb False by simp
        qed
      qed
    qed
  qed
qed

lemma searchStrings_single_coop:
  "cooperative (\<lambda>t. searchStrings_single t H start settings) t"
  unfolding searchStrings_single_def
  by (simp add: searchStrings_loop_coop split: prod.split)

lemma searchStrings_coop:
  "cooperative (\<lambda>t. searchStrings t H start settings) t"
proof (cases "type settings = ASCII_UTF16BE \<or> type settings = ASCII_UTF16LE")
  case False
  then have "(\<lambda>t. searchStrings t H start settings) = (\<lambda>t. searchStrings_single t H start settings)"
    by (simp add: searchStrings_def)
  then show ?thesis
    by (simp add: searchStrings_single_coop)
next
  case True
  let ?s1 = "settings\<lparr>type := ASCII\<rparr>"
  let ?s2 = "settings\<lparr>type := (if type settings = ASCII_UTF16BE then UTF16BE else UTF16LE)\<rparr>"
  let ?G = "\<lambda>asciiResults t1. case searchStrings_single t1 H start ?s2 of
                (Inl f, t2) \<Rightarrow> (Inl f, t2)
              | (Inr utf16Results, t2) \<Rightarrow> (Inr (asciiResults @ utf16Results), t2)"
  show ?thesis
  proof (rule coop_bind [where F = "\<lambda>t. searchStrings_single t H start ?s1" and G = ?G])
    fix t
    show "searchStrings t H start settings =
        (case searchStrings_single t H start ?s1 of (Inl f, t1) \<Rightarrow> (Inl f, t1) | (Inr x, t1) \<Rightarrow> ?G x t1)"
      using True by (simp add: searchStrings_def)
  next
    show "cooperative (\<lambda>t. searchStrings_single t H start ?s1) t"
      by (rule searchStrings_single_coop)
  next
    fix x t1
    show "cooperative (?G x) t1"
    proof (rule coop_bind [where F = "\<lambda>t. searchStrings_single t H start ?s2"
          and G = "\<lambda>utf16Results t2. (Inr (x @ utf16Results), t2)"])
      fix t
      show "?G x t = (case searchStrings_single t H start ?s2 of (Inl f, t1) \<Rightarrow> (Inl f, t1)
          | (Inr u, t1) \<Rightarrow> (Inr (x @ u), t1))"
        by simp
    next
      show "cooperative (\<lambda>t. searchStrings_single t H start ?s2) t1"
        by (rule searchStrings_single_coop)
    next
      fix u t2
      show "cooperative (\<lambda>t2. (Inr (x @ u), t2)) t2"
        by (rule coop_return)
    qed
  qed
qed

lemma searchSequence_coop:
  "cooperative (\<lambda>t. searchSequence t H start bytes) t"
  unfolding searchSequence_def
  by (simp add: coop_if coop_return searchSequence_loop_coop)

lemma searchBinaryPattern_coop:
  "cooperative (\<lambda>t. searchBinaryPattern t H start pattern) t"
  unfolding searchBinaryPattern_def
  by (rule searchBinaryPattern_loop_coop)

lemma searchValue_coop:
  "cooperative (\<lambda>t. searchValue fl t H start settings) t"
proof (cases "parseNumericValueInput fl (inputMin settings) (type_v settings)")
  case mn: (fields validMin min_v sizeMin)
  show ?thesis
  proof (cases "parseNumericValueInput fl (inputMax settings) (type_v settings)")
    case mx: (fields validMax max_v sizeMax)
    show ?thesis
      unfolding searchValue_def
      by (simp add: mn mx coop_if coop_return searchValue_loop_coop)
  qed
qed

lemma searchRegex_coop:
  "cooperative (\<lambda>t. searchRegex lib t H start settings) t"
proof -
  let ?st = "\<lparr>minLength = minLength_rx settings, nullTermination = nullTermination_rx settings,
              type = type_rx settings, lowerCaseLetters = True, upperCaseLetters = True,
              numbers = True, underscores = True, symbols = True, spaces = True, lineFeeds = True\<rparr>"
  let ?G = "\<lambda>stringOccurrences t1. case regex_compile lib (pattern_rx settings) of
             None \<Rightarrow> (Inl RegexError, t1)
           | Some regex \<Rightarrow>
               searchRegex_loop lib regex (fullMatch settings) t1 H start stringOccurrences []"
  show ?thesis
  proof (rule coop_bind [where F = "\<lambda>t. searchStrings t H start ?st" and G = ?G])
    fix t
    show "searchRegex lib t H start settings =
        (case searchStrings t H start ?st of (Inl f, t1) \<Rightarrow> (Inl f, t1) | (Inr x, t1) \<Rightarrow> ?G x t1)"
      by (simp add: searchRegex_def)
  next
    show "cooperative (\<lambda>t. searchStrings t H start ?st) t"
      by (rule searchStrings_coop)
  next
    fix x t1
    show "cooperative (?G x) t1"
      by (cases "regex_compile lib (pattern_rx settings)")
         (simp_all add: coop_return searchRegex_loop_coop)
  qed
qed

lemma dispatch_coop:
  "cooperative (\<lambda>t. dispatch libs t provider r settings) t"
  unfolding dispatch_def Let_def
  by (cases "mode_s settings")
     (simp_all add: searchStrings_coop searchSequence_coop searchRegex_coop searchBinaryPattern_coop
        searchValue_coop)

lemma dispatch_cancelled:
  assumes "cancellationObserved t (snd (dispatch libs (uncancelled t) provider r settings))"
  shows "fst (dispatch libs t provider r settings) = Inl TaskInterruptor"
proof -
  from assms obtain n where n: "interruptAt t = Some n"
    and o: "calls t < calls (snd (dispatch libs (uncancelled t) provider r settings))"
      "n < calls (snd (dispatch libs (uncancelled t) provider r settings))"
    by (auto simp: cancellationObserved_def split: option.splits)
  have t: "t = (uncancelled t)\<lparr>interruptAt := Some n\<rparr>"
    using n by (simp add: uncancelled_def)
  have "cooperative (\<lambda>t. dispatch libs t provider r settings) (uncancelled t)"
    by (rule dispatch_coop)
  then have "dispatch libs ((uncancelled t)\<lparr>interruptAt := Some n\<rparr>) provider r settings =
      (Inl TaskInterruptor, (uncancelled t)\<lparr>calls := max n (calls (uncancelled t)), interruptAt := Some n\<rparr>)"
    using o by (simp add: cooperative_def uncancelled_def)
  then show ?thesis
    using t by simp
qed

lemma dispatch_not_observed:
  assumes "\<not> cancellationObserved t (snd (dispatch libs (uncancelled t) provider r settings))"
  shows "fst (dispatch libs t provider r settings) = fst (dispatch libs (uncancelled t) provider r settings)"
proof (cases "interruptAt t")
  case None
  then have "uncancelled t = t"
    by (simp add: uncancelled_def)
  then show ?thesis by simp
next
  case (Some n)
  then have t: "t = (uncancelled t)\<lparr>interruptAt := Some n\<rparr>"
    by (simp add: uncancelled_def)
  have o: "\<not> (calls t < calls (snd (dispatch libs (uncancelled t) provider r settings))
      \<and> n < calls (snd (dispatch libs (uncancelled t) provider r settings)))"
    using assms Some by (simp add: cancellationObserved_def)
  have "cooperative (\<lambda>t. dispatch libs t provider r settings) (uncancelled t)"
    by (rule dispatch_coop)
  then have "fst (dispatch libs ((uncancelled t)\<lparr>interruptAt := Some n\<rparr>) provider r settings) =
      fst (dispatch libs (uncancelled t) provider r settings)"
    using o by (auto simp: cooperative_def uncancelled_def)
  then show ?thesis
    using t by simp
qed

lemma searchSequence_loop_polls:
  "interruptAt t = None \<Longrightarrow> start \<le> first \<Longrightarrow>
   calls (snd (searchSequence_loop t H start bytes first results)) =
     calls t + 1 + length (all_matches first (readerFrom H start first) bytes)"
proof (induction t H start bytes first results rule: searchSequence_loop.induct)
  case (1 t H start bytes first results)
  let ?t' = "t\<lparr>calls := Suc (calls t)\<rparr>"
  let ?rest = "readerFrom H start first"
  let ?k = "std_search ?rest bytes"
  have upd: "task_update t = Some ?t'"
    using "1.prems" by (simp add: task_update_running)
  show ?case
  proof (cases "?k = length ?rest")
    case True
    then show ?thesis
      by (subst searchSequence_loop.simps) (simp add: upd all_matches_none)
  next
    case False
    then have lt: "?k < length ?rest"
      using std_search_le [of ?rest bytes] by simp
    have drop: "readerFrom H start (first + ?k + 1) = drop (Suc ?k) ?rest"
      using "1.prems" by (simp add: readerFrom_def Suc_diff_le add.commute)
    have IH: "calls (snd (searchSequence_loop ?t' H start bytes (first + ?k + 1)
                 (results @ [\<lparr>region = Region (first + ?k) (length bytes), decodeType = DecodeBinary,
                                endian = native\<rparr>]))) =
       calls ?t' + 1 + length (all_matches (first + ?k + 1) (readerFrom H start (first + ?k + 1)) bytes)"
      using "1.IH" [OF upd refl refl False refl] "1.prems" by simp
    show ?thesis
      by (subst searchSequence_loop.simps)
         (simp add: upd False Let_def IH [simplified] all_matches_first [OF lt] drop [simplified])
  qed
qed

text \<open>
  Claim C6, as amended. A search observes a cancellation only at a poll. (1) When the
  request is observed, that is when the search left alone would poll at or after the
  request, the search ends with the interruption and the task body is left before it
  stores anything: the found list, the working copy and the occurrence tree of every
  provider are what they were, and so is the rest of the view. (2) When the request is
  not observed, the task body does exactly what it does without a request. (3) The
  results of a search that returns replace the stored ones. (4) A string search of one
  encoding polls once for every byte of the range. (5) A sequence search polls once
  before each search for the next match, one time more than it finds matches, so a
  request made during the scan that follows the last poll is not observed.
\<close>

theorem runSearch_cancelled_keeps_results:
  "(cancellationObserved t
        (snd (dispatch libs (uncancelled t) provider (searchRegion settings provider selection) settings))
      \<longrightarrow> fst (dispatch libs t provider (searchRegion settings provider selection) settings)
             = Inl TaskInterruptor
          \<and> fst (runSearch libs view settings p provider selection t) = view)
   \<and> (\<not> cancellationObserved t
        (snd (dispatch libs (uncancelled t) provider (searchRegion settings provider selection) settings))
      \<longrightarrow> fst (runSearch libs view settings p provider selection t) =
            fst (runSearch libs view settings p provider selection (uncancelled t)))
   \<and> (fst (dispatch libs t provider (searchRegion settings provider selection) settings) = Inr found
      \<longrightarrow> fst (runSearch libs view settings p provider selection t) =
            view\<lparr>m_foundOccurrences := (m_foundOccurrences view)(p := found),
                 m_sortedOccurrences := (m_sortedOccurrences view)(p := found),
                 m_occurrenceTree := (m_occurrenceTree view)
                   (p := map (\<lambda>occurrence. (getStartAddress (region occurrence),
                                               getEndAddress (region occurrence), occurrence)) found)\<rparr>)
   \<and> (mode_s settings = ModeStrings \<and> type (strings_s settings) \<in> {ASCII, UTF16LE, UTF16BE}
      \<longrightarrow> calls (snd (dispatch libs (uncancelled t) provider r settings)) =
            calls t + length (regionBytes provider r))
   \<and> (mode_s settings = ModeSequence \<and> decodeByteString libs (sequence_s (bytes_s settings)) \<noteq> []
      \<longrightarrow> calls (snd (dispatch libs (uncancelled t) provider r settings)) =
            calls t + 1 + length (filter
              (\<lambda>i. take (length (decodeByteString libs (sequence_s (bytes_s settings))))
                      (drop i (regionBytes provider r)) = decodeByteString libs (sequence_s (bytes_s settings)))
              [0..<length (regionBytes provider r)]))"
proof (intro conjI impI)
  let ?r = "searchRegion settings provider selection"
  assume "cancellationObserved t (snd (dispatch libs (uncancelled t) provider ?r settings))"
  then show c: "fst (dispatch libs t provider ?r settings) = Inl TaskInterruptor"
    by (rule dispatch_cancelled)
  then show "fst (runSearch libs view settings p provider selection t) = view"
    by (auto simp: runSearch_def split: prod.splits sum.splits)
next
  let ?r = "searchRegion settings provider selection"
  assume "\<not> cancellationObserved t (snd (dispatch libs (uncancelled t) provider ?r settings))"
  then have "fst (dispatch libs t provider ?r settings) = fst (dispatch libs (uncancelled t) provider ?r settings)"
    by (rule dispatch_not_observed)
  then show "fst (runSearch libs view settings p provider selection t) =
      fst (runSearch libs view settings p provider selection (uncancelled t))"
    by (auto simp: runSearch_def split: prod.splits sum.splits)
next
  assume "fst (dispatch libs t provider (searchRegion settings provider selection) settings) = Inr found"
  then show "fst (runSearch libs view settings p provider selection t) =
            view\<lparr>m_foundOccurrences := (m_foundOccurrences view)(p := found),
                 m_sortedOccurrences := (m_sortedOccurrences view)(p := found),
                 m_occurrenceTree := (m_occurrenceTree view)
                   (p := map (\<lambda>occurrence. (getStartAddress (region occurrence),
                                               getEndAddress (region occurrence), occurrence)) found)\<rparr>"
    by (auto simp: runSearch_def split: prod.splits sum.splits)
next
  assume a: "mode_s settings = ModeStrings \<and> type (strings_s settings) \<in> {ASCII, UTF16LE, UTF16BE}"
  have "interruptAt (uncancelled t) = None"
    by (simp add: uncancelled_def)
  from searchStrings_runs [OF this, of "strings_s settings" "regionBytes provider r" "getStartAddress r"] a
  show "calls (snd (dispatch libs (uncancelled t) provider r settings)) =
      calls t + length (regionBytes provider r)"
    by (auto simp: dispatch_def Let_def uncancelled_def)
next
  let ?bytes = "decodeByteString libs (sequence_s (bytes_s settings))"
  let ?H = "regionBytes provider r"
  assume a: "mode_s settings = ModeSequence \<and> ?bytes \<noteq> []"
  have run: "interruptAt (uncancelled t) = None"
    by (simp add: uncancelled_def)
  have "calls (snd (searchSequence (uncancelled t) ?H (getStartAddress r) ?bytes)) =
      calls t + 1 + length (all_matches (getStartAddress r) ?H ?bytes)"
    using a searchSequence_loop_polls [OF run, of "getStartAddress r" "getStartAddress r" ?H ?bytes "[]"]
    by (simp add: searchSequence_def readerFrom_def uncancelled_def)
  then show "calls (snd (dispatch libs (uncancelled t) provider r settings)) =
      calls t + 1 + length (filter (\<lambda>i. take (length ?bytes) (drop i ?H) = ?bytes) [0..<length ?H])"
    using a by (simp add: dispatch_def Let_def all_matches_filter)
qed

text \<open>
  A string search over five bytes whose cancellation is requested after two polls: it
  is observed and the view is kept. A sequence search without a match whose cancellation
  is requested after its only poll: it is not observed, and the empty result is stored.
\<close>

theorem runSearch_cancelled_keeps_results_witness:
  "cancellationObserved cancelledAfterTwoPolls
      (snd (dispatch exampleLibs (uncancelled cancelledAfterTwoPolls) exampleProvider
              (searchRegion exampleSettings exampleProvider None) exampleSettings))
   \<and> fst (dispatch exampleLibs cancelledAfterTwoPolls exampleProvider
              (searchRegion exampleSettings exampleProvider None) exampleSettings) = Inl TaskInterruptor
   \<and> fst (runSearch exampleLibs exampleView exampleSettings (0 :: nat) exampleProvider None
              cancelledAfterTwoPolls) = exampleView
   \<and> \<not> cancellationObserved cancelledAfterOnePoll
      (snd (dispatch exampleLibs (uncancelled cancelledAfterOnePoll) exampleProvider
              (searchRegion sequenceSettings exampleProvider None) sequenceSettings))
   \<and> fst (runSearch exampleLibs exampleView sequenceSettings (0 :: nat) exampleProvider None
              cancelledAfterOnePoll) =
       fst (runSearch exampleLibs exampleView sequenceSettings (0 :: nat) exampleProvider None
              (uncancelled cancelledAfterOnePoll))
   \<and> fst (dispatch exampleLibs cancelledAfterOnePoll exampleProvider
              (searchRegion sequenceSettings exampleProvider None) sequenceSettings) = Inr []
   \<and> fst (runSearch exampleLibs exampleView sequenceSettings (0 :: nat) exampleProvider None
              cancelledAfterOnePoll) =
       exampleView\<lparr>m_foundOccurrences := (m_foundOccurrences exampleView)(0 := []),
                    m_sortedOccurrences := (m_sortedOccurrences exampleView)(0 := []),
                    m_occurrenceTree := (m_occurrenceTree exampleView)(0 := [])\<rparr>
   \<and> mode_s exampleSettings = ModeStrings
   \<and> type (strings_s exampleSettings) \<in> {ASCII, UTF16LE, UTF16BE}
   \<and> calls (snd (dispatch exampleLibs (uncancelled cancelledAfterTwoPolls) exampleProvider
              (Region 0 5) exampleSettings)) = 5
   \<and> mode_s sequenceSettings = ModeSequence
   \<and> decodeByteString exampleLibs (sequence_s (bytes_s sequenceSettings)) \<noteq> []
   \<and> calls (snd (dispatch exampleLibs (uncancelled cancelledAfterOnePoll) exampleProvider
              (Region 0 5) sequenceSettings)) = 1"
proof -
  let ?r1 = "searchRegion exampleSettings exampleProvider None"
  let ?r2 = "searchRegion sequenceSettings exampleProvider None"
  have o1: "cancellationObserved cancelledAfterTwoPolls
      (snd (dispatch exampleLibs (uncancelled cancelledAfterTwoPolls) exampleProvider ?r1 exampleSettings))"
    by code_simp
  have o2: "\<not> cancellationObserved cancelledAfterOnePoll
      (snd (dispatch exampleLibs (uncancelled cancelledAfterOnePoll) exampleProvider ?r2 sequenceSettings))"
    by code_simp
  have d2: "fst (dispatch exampleLibs cancelledAfterOnePoll exampleProvider ?r2 sequenceSettings) = Inr []"
    by code_simp
  have m1: "mode_s exampleSettings = ModeStrings" "type (strings_s exampleSettings) \<in> {ASCII, UTF16LE, UTF16BE}"
    by (simp_all add: exampleSettings_def exampleStrings_def)
  have m2: "mode_s sequenceSettings = ModeSequence"
    "decodeByteString exampleLibs (sequence_s (bytes_s sequenceSettings)) \<noteq> []"
    by (simp_all add: sequenceSettings_def exampleSettings_def exampleLibs_def)
  have len: "regionBytes exampleProvider (Region 0 5) = [0x61, 0x62, 0x01, 0x63, 0x64]"
    by (simp add: regionBytes_def exampleProvider_def)
  have none: "filter (\<lambda>i. take (length (decodeByteString exampleLibs (sequence_s (bytes_s sequenceSettings))))
                      (drop i (regionBytes exampleProvider (Region 0 5))) =
                    decodeByteString exampleLibs (sequence_s (bytes_s sequenceSettings)))
              [0..<length (regionBytes exampleProvider (Region 0 5))] = []"
    unfolding len by (simp add: sequenceSettings_def exampleSettings_def exampleLibs_def upt_rec)
  have c: "calls cancelledAfterTwoPolls = 0" "calls cancelledAfterOnePoll = 0"
    by (simp_all add: cancelledAfterTwoPolls_def cancelledAfterOnePoll_def)
  note inst1 = runSearch_cancelled_keeps_results
    [where t = cancelledAfterTwoPolls and libs = exampleLibs and provider = exampleProvider
       and settings = exampleSettings and selection = None and view = exampleView and p = "0 :: nat"
       and r = "Region 0 5"]
  note inst2 = runSearch_cancelled_keeps_results
    [where t = cancelledAfterOnePoll and libs = exampleLibs and provider = exampleProvider
       and settings = sequenceSettings and selection = None and view = exampleView and p = "0 :: nat"
       and r = "Region 0 5" and found = "[]"]
  have a1: "fst (dispatch exampleLibs cancelledAfterTwoPolls exampleProvider ?r1 exampleSettings) = Inl TaskInterruptor"
    "fst (runSearch exampleLibs exampleView exampleSettings (0 :: nat) exampleProvider None
              cancelledAfterTwoPolls) = exampleView"
    using inst1 o1 by blast+
  have a2: "fst (runSearch exampleLibs exampleView sequenceSettings (0 :: nat) exampleProvider None
              cancelledAfterOnePoll) =
       fst (runSearch exampleLibs exampleView sequenceSettings (0 :: nat) exampleProvider None
              (uncancelled cancelledAfterOnePoll))"
    using inst2 o2 by blast
  have a3: "fst (runSearch exampleLibs exampleView sequenceSettings (0 :: nat) exampleProvider None
              cancelledAfterOnePoll) =
       exampleView\<lparr>m_foundOccurrences := (m_foundOccurrences exampleView)(0 := []),
                    m_sortedOccurrences := (m_sortedOccurrences exampleView)(0 := []),
                    m_occurrenceTree := (m_occurrenceTree exampleView)(0 := [])\<rparr>"
    using inst2 d2 by simp
  have p4: "mode_s exampleSettings = ModeStrings \<and> type (strings_s exampleSettings) \<in> {ASCII, UTF16LE, UTF16BE}"
    using m1 by blast
  have p5: "mode_s sequenceSettings = ModeSequence
      \<and> decodeByteString exampleLibs (sequence_s (bytes_s sequenceSettings)) \<noteq> []"
    using m2 by blast
  have a4: "calls (snd (dispatch exampleLibs (uncancelled cancelledAfterTwoPolls) exampleProvider
              (Region 0 5) exampleSettings)) = 5"
    using inst1 [THEN conjunct2, THEN conjunct2, THEN conjunct2, THEN conjunct1, THEN mp, OF p4]
    by (simp add: c len)
  have a5: "calls (snd (dispatch exampleLibs (uncancelled cancelledAfterOnePoll) exampleProvider
              (Region 0 5) sequenceSettings)) = 1"
    using inst2 [THEN conjunct2, THEN conjunct2, THEN conjunct2, THEN conjunct2, THEN mp, OF p5]
    by (simp only: c none list.size add_0 add_0_right)
  show ?thesis
    using o1 o2 d2 m1 m2 a1 a2 a3 a4 a5 by blast
qed

text \<open>
  The claim as stated fails for a cancellation that no poll observes: the sequence
  search for "zz" polls once and then scans the range; cancelled during that scan, it
  returns, and the task body replaces the stored list of one occurrence by the empty
  result.
\<close>

theorem runSearch_unobserved_cancellation_counterexample:
  "interruptAt cancelledAfterOnePoll = Some 1
   \<and> m_foundOccurrences exampleView (0 :: nat) =
        [\<lparr>region = Region 7 1, decodeType = DecodeBinary, endian = Little\<rparr>]
   \<and> m_foundOccurrences (fst (runSearch exampleLibs exampleView sequenceSettings (0 :: nat) exampleProvider None
        cancelledAfterOnePoll)) 0 = []"
  by code_simp

subsection \<open>Editing the filter\<close>












end
